theory Spec2Isabelle
  imports Complex_Main
begin

section \<open>Strings\<close>

text \<open>
  A JavaScript string is modelled as a \<open>string\<close>, one \<open>char\<close> for each code unit below 256.
  \<open>isWhiteSpace\<close> holds of the code units in that range that \<open>String.prototype.trim\<close> strips
  and that the class \<open>\s\<close> of a regular expression matches: TAB, LF, VT, FF, CR, SP, NBSP.
\<close>

definition LF :: char where
  "LF = CHR 0x0A"

definition CR :: char where
  "CR = CHR 0x0D"

definition isWhiteSpace :: "char \<Rightarrow> bool" where
  "isWhiteSpace c \<longleftrightarrow>
     c = CHR 0x09 \<or> c = CHR 0x0A \<or> c = CHR 0x0B \<or> c = CHR 0x0C \<or> c = CHR 0x0D \<or>
     c = CHR 0x20 \<or> c = CHR 0xA0"

definition trim :: "string \<Rightarrow> string" where
  "trim s = rev (dropWhile isWhiteSpace (rev (dropWhile isWhiteSpace s)))"

text \<open>
  \<open>text.split(/\r?\n+/)\<close>: the scan keeps the fragment read so far in \<open>cur\<close>. A match of the
  pattern starts at an LF, or at a CR that an LF follows, and takes every LF that follows;
  the fragment before it is emitted, also when it is empty, and so is the last fragment.
\<close>

function split_line_breaks :: "string \<Rightarrow> string \<Rightarrow> string list" where
  "split_line_breaks cur [] = [cur]"
| "split_line_breaks cur (c # cs) =
     (if c = LF then cur # split_line_breaks [] (dropWhile (\<lambda>x. x = LF) cs)
      else if c = CR \<and> cs \<noteq> [] \<and> hd cs = LF
        then cur # split_line_breaks [] (dropWhile (\<lambda>x. x = LF) cs)
      else split_line_breaks (cur @ [c]) cs)"
  by pat_completeness auto
termination
  by (relation "measure (\<lambda>(cur, s). length s)")
     (auto intro: le_imp_less_Suc length_dropWhile_le)

text \<open>\<open>segmentText\<close> (DatabaseBridge.tsx 23-26, the same in part_001).\<close>

definition segmentText :: "string \<Rightarrow> string list" where
  "segmentText text =
     (if text = [] then []
      else filter (\<lambda>t. length t > 0) (map trim (split_line_breaks [] text)))"

text \<open>
  The lines of a text as the specification speaks of them: the text is cut at every
  line feed. A line is non-empty when something is left of it after trimming (the
  carriage return of a CR LF pair is white space).
\<close>

fun lines_of :: "string \<Rightarrow> string \<Rightarrow> string list" where
  "lines_of cur [] = [cur]"
| "lines_of cur (c # cs) =
     (if c = LF then cur # lines_of [] cs else lines_of (cur @ [c]) cs)"

abbreviation kept :: "string list \<Rightarrow> string list" where
  "kept xs \<equiv> filter (\<lambda>l. l \<noteq> []) (map trim xs)"

definition nonEmptyLines :: "string \<Rightarrow> string list" where
  "nonEmptyLines text = filter (\<lambda>l. l \<noteq> []) (map trim (lines_of [] text))"

text \<open>
  \<open>scriptedText.replace(/^(Male|Female) \d:\s*/i, '')\<close> (DatabaseBridge.tsx 165): a leading
  speaker label, matched without regard to case, is removed together with the white space
  after its colon; a text without such a label is returned as it is.
\<close>

definition toUpperCase :: "char \<Rightarrow> char" where
  "toUpperCase c =
     (if of_char (CHR ''a'') \<le> (of_char c :: nat) \<and> (of_char c :: nat) \<le> of_char (CHR ''z'')
      then char_of (of_char c - (32 :: nat)) else c)"

definition isDigit :: "char \<Rightarrow> bool" where
  "isDigit c \<longleftrightarrow> of_char (CHR ''0'') \<le> (of_char c :: nat) \<and> (of_char c :: nat) \<le> of_char (CHR ''9'')"

fun stripPrefixCI :: "string \<Rightarrow> string \<Rightarrow> string option" where
  "stripPrefixCI [] s = Some s"
| "stripPrefixCI (p # ps) [] = None"
| "stripPrefixCI (p # ps) (c # cs) =
     (if toUpperCase p = toUpperCase c then stripPrefixCI ps cs else None)"

definition afterLabel :: "string \<Rightarrow> string option" where
  "afterLabel r =
     (case r of
        sp # d # col # rest \<Rightarrow>
          if sp = CHR '' '' \<and> isDigit d \<and> col = CHR '':''
          then Some (dropWhile isWhiteSpace rest) else None
      | _ \<Rightarrow> None)"

definition cleanText :: "string \<Rightarrow> string" where
  "cleanText scriptedText =
     (case Option.bind (stripPrefixCI ''Male'' scriptedText) afterLabel of
        Some t \<Rightarrow> t
      | None \<Rightarrow>
          (case Option.bind (stripPrefixCI ''Female'' scriptedText) afterLabel of
             Some t \<Rightarrow> t
           | None \<Rightarrow> scriptedText))"

section \<open>Numbers\<close>

text \<open>
  The numbers of the program are IEEE 754 doubles. A finite double is written here as the
  real number it stands for, and \<open>fl x\<close> is the double nearest to \<open>x\<close>, the one with the even
  mantissa when two are equally near: what an arithmetic operation returns whose exact
  result is \<open>x\<close>. The mantissa has 53 bits: in the binade that starts at \<open>2 powi e\<close> the
  doubles are \<open>2 powi (e - 52)\<close> apart, and below \<open>2 powi (- 1022)\<close> they are
  \<open>2 powi (- 1074)\<close> apart. \<open>rne\<close> rounds to the nearest integer, to the even one of two
  that are equally near. Infinities, \<open>NaN\<close> and the sign of zero are left out: the one
  operation that is rounded here, the sum of a finite double and 0.1, does not produce them.
\<close>

definition rne :: "real \<Rightarrow> int" where
  "rne x =
     (let f = \<lfloor>x\<rfloor>; d = x - of_int f
      in if d < 1 / 2 then f else if 1 / 2 < d then f + 1 else if even f then f else f + 1)"

text \<open>The binade of a positive number: the \<open>e\<close> with \<open>2 powi e \<le> x < 2 powi (e + 1)\<close>.\<close>

function binade :: "real \<Rightarrow> int" where
  "binade x =
     (if x \<le> 0 then 0
      else if 2 \<le> x then binade (x / 2) + 1
      else if x < 1 then binade (2 * x) - 1
      else 0)"
  by pat_completeness auto
termination
proof (relation "measure (\<lambda>x. nat (2 * \<lceil>1 / x\<rceil> + \<lceil>x\<rceil>))")
  show "wf (measure (\<lambda>x :: real. nat (2 * \<lceil>1 / x\<rceil> + \<lceil>x\<rceil>)))"
    by simp
next
  fix x :: real
  assume a: "\<not> x \<le> 0" "2 \<le> x"
  have 1: "\<lceil>1 / (x / 2)\<rceil> = 1" "\<lceil>1 / x\<rceil> = 1"
    using a by (simp_all add: ceiling_eq_iff)
  have 2: "\<lceil>x / 2\<rceil> < \<lceil>x\<rceil>"
    using a by (simp add: ceiling_less_iff) linarith
  have 3: "0 < \<lceil>x / 2\<rceil>" using a by simp
  have "nat (2 * \<lceil>1 / (x / 2)\<rceil> + \<lceil>x / 2\<rceil>) < nat (2 * \<lceil>1 / x\<rceil> + \<lceil>x\<rceil>)"
    using 1 2 3 by linarith
  then show "(x / 2, x) \<in> measure (\<lambda>x. nat (2 * \<lceil>1 / x\<rceil> + \<lceil>x\<rceil>))"
    by (simp only: in_measure)
next
  fix x :: real
  assume a: "\<not> x \<le> 0" "\<not> 2 \<le> x" "x < 1"
  have 1: "\<lceil>x\<rceil> = 1" using a by (simp add: ceiling_eq_iff)
  have 2: "\<lceil>2 * x\<rceil> \<le> 2" using a by (simp add: ceiling_le_iff)
  have 3: "2 \<le> \<lceil>1 / x\<rceil>" using a by (simp add: le_ceiling_iff field_simps)
  have "1 / (2 * x) \<le> of_int (\<lceil>1 / x\<rceil> - 1)"
  proof -
    have "1 / x \<le> of_int \<lceil>1 / x\<rceil>" by (rule le_of_int_ceiling)
    then have "1 / (2 * x) \<le> of_int \<lceil>1 / x\<rceil> / 2" by simp
    also have "\<dots> \<le> of_int (\<lceil>1 / x\<rceil> - 1)" using 3 by simp
    finally show ?thesis .
  qed
  then have 4: "\<lceil>1 / (2 * x)\<rceil> \<le> \<lceil>1 / x\<rceil> - 1" by (rule ceiling_le)
  have 5: "0 < \<lceil>1 / (2 * x)\<rceil>" using a by simp
  have "nat (2 * \<lceil>1 / (2 * x)\<rceil> + \<lceil>2 * x\<rceil>) < nat (2 * \<lceil>1 / x\<rceil> + \<lceil>x\<rceil>)"
    using 1 2 4 5 by linarith
  then show "(2 * x, x) \<in> measure (\<lambda>x. nat (2 * \<lceil>1 / x\<rceil> + \<lceil>x\<rceil>))"
    by (simp only: in_measure)
qed

declare binade.simps [simp del]

definition fl :: "real \<Rightarrow> real" where
  "fl x =
     (if x = 0 then 0
      else let e = max (binade \<bar>x\<bar>) (- 1022); u = 2 powi (e - 52)
           in of_int (rne (x / u)) * u)"

text \<open>The literal \<open>0.1\<close>.\<close>

definition tenth :: real where
  "tenth = fl (1 / 10)"

section \<open>Data model\<close>

text \<open>\<open>Transcript\<close> (part_000). The text is optional: a row may come without it.\<close>

record Transcript =
  id_t :: string
  session_id :: string
  user_id :: string
  source_language :: string
  full_transcript_text :: "string option"
  created_at :: string
  updated_at :: string

datatype VoiceStyle = Natural | Breathy | Dramatic

text \<open>What \<open>getAudioStreamerState()\<close> returns: two doubles, in seconds.\<close>

record AudioStreamerState =
  endOfQueueTime :: real
  duration :: real

text \<open>
  The calls the component makes to its collaborators, in the order it makes them; those of
  the scheduler loop carry the time (in ms) at which they are made.
\<close>

datatype event =
    AddTurn string
  | UpdateLastTurn string
  | Synthesize nat string
  | Send nat string
  | Warn nat
  | LogError nat

text \<open>
  The refs of the component (\<open>useRef\<close>), the clock \<open>now\<close> (\<open>Date.now()\<close>, in ms) and the
  trace of the calls made so far.
\<close>

record bridge =
  lastProcessedIdRef :: "string option"
  paragraphCountRef :: nat
  voiceStyleRef :: VoiceStyle
  languageRef :: string
  queueRef :: "string list"
  isProcessingRef :: bool
  now :: nat
  trace :: "event list"

text \<open>
  The collaborators, which the component only calls: what each of them answers to a call
  made at time \<open>t\<close>.
  \<^item> \<open>connected_at t\<close>: \<open>client.status === 'connected'\<close>;
  \<^item> \<open>streamer_at t\<close>: \<open>getAudioStreamerState()\<close>;
  \<^item> \<open>synth_ok t script\<close>: what the synthesis call (\<open>generateMultiSpeakerAudio\<close>, in part_001
    \<open>processTextAndGenerateAudio\<close>) resolves to; it catches its own errors and never rejects;
  \<open>synth_latency t script\<close>: the time until it resolves;
  \<^item> \<open>send_throws t text\<close>: whether \<open>client.send\<close> throws;
  \<^item> \<open>flash_text text lang\<close>: the text of the answer of the translation model, \<open>None\<close>
    when the request fails or the answer has no text.
  Synchronous code takes no time; a \<open>setTimeout\<close> of \<open>d\<close> ms resumes after exactly \<open>d\<close> ms.
\<close>

record world =
  connected_at :: "nat \<Rightarrow> bool"
  streamer_at :: "nat \<Rightarrow> AudioStreamerState"
  synth_ok :: "nat \<Rightarrow> string \<Rightarrow> bool"
  synth_latency :: "nat \<Rightarrow> string \<Rightarrow> nat"
  send_throws :: "nat \<Rightarrow> string \<Rightarrow> bool"
  flash_text :: "string \<Rightarrow> string \<Rightarrow> string option"

text \<open>The two revisions of the component: DatabaseBridge.tsx and part_001.\<close>

datatype revision = Bridge | Part001

definition initial :: "VoiceStyle \<Rightarrow> string \<Rightarrow> bridge" where
  "initial style language =
     \<lparr>lastProcessedIdRef = None, paragraphCountRef = 0, voiceStyleRef = style,
      languageRef = language, queueRef = [], isProcessingRef = False, now = 0, trace = []\<rparr>"

section \<open>Ingestion: \<open>processNewData\<close>\<close>

text \<open>\<open>diarizeAndTranslate\<close> (DatabaseBridge.tsx 60-83).\<close>

definition diarizeAndTranslate :: "world \<Rightarrow> string \<Rightarrow> string \<Rightarrow> string" where
  "diarizeAndTranslate w text targetLanguage =
     (case flash_text w text targetLanguage of
        None \<Rightarrow> ''Male 1: '' @ text
      | Some r \<Rightarrow> if trim r = [] then ''Male 1: '' @ text else trim r)"

text \<open>
  The \<open>forEach\<close> of part_001 (239-245): every segment is pushed and counted, and the
  filler follows each segment that brings the count to a multiple of three.
\<close>

fun pushSegments :: "string list \<Rightarrow> bridge \<Rightarrow> bridge" where
  "pushSegments [] s = s"
| "pushSegments (seg # segs) s =
     (let s1 = s\<lparr>queueRef := queueRef s @ [seg]\<rparr>;
          s2 = s1\<lparr>paragraphCountRef := paragraphCountRef s1 + 1\<rparr>;
          s3 = (if paragraphCountRef s2 > 0 \<and> paragraphCountRef s2 mod 3 = 0
                then s2\<lparr>queueRef := queueRef s2 @ [''(clears throat)'']\<rparr> else s2)
      in pushSegments segs s3)"

text \<open>
  \<open>processNewData\<close> (DatabaseBridge.tsx 204-234, part_001 221-248). The result says also
  whether \<open>processQueueLoop()\<close> is called at the end; the call is not awaited.
\<close>

definition processNewData :: "revision \<Rightarrow> world \<Rightarrow> bridge \<Rightarrow> Transcript \<Rightarrow> bridge \<times> bool" where
  "processNewData rv w s data =
     (case full_transcript_text data of
        None \<Rightarrow> (s, False)
      | Some source \<Rightarrow>
          if source = [] then (s, False)
          else if lastProcessedIdRef s = Some (id_t data) then (s, False)
          else
            let s1 = s\<lparr>lastProcessedIdRef := Some (id_t data)\<rparr>;
                s2 = s1\<lparr>trace := trace s1 @ [AddTurn source]\<rparr>
            in (case rv of
                  Part001 \<Rightarrow>
                    let segments = segmentText source
                    in if length segments > 0 then (pushSegments segments s2, True)
                       else (s2, False)
                | Bridge \<Rightarrow>
                    let targetLang = (if languageRef s2 = [] then ''English'' else languageRef s2);
                        diarizedScript = diarizeAndTranslate w source targetLang;
                        s3 = s2\<lparr>trace := trace s2 @ [UpdateLastTurn diarizedScript]\<rparr>;
                        segments = segmentText diarizedScript
                    in if length segments > 0
                       then (s3\<lparr>queueRef := queueRef s3 @ segments\<rparr>, True)
                       else (s3, False)))"

text \<open>
  A sequence of updates, from whichever channel, delivered one after the other: the
  updates that pass the guards, which are those for which \<open>addTurn\<close> is called.
\<close>

fun accepted :: "revision \<Rightarrow> world \<Rightarrow> bridge \<Rightarrow> Transcript list \<Rightarrow> Transcript list" where
  "accepted rv w s [] = []"
| "accepted rv w s (u # us) =
     (let s' = fst (processNewData rv w s u)
      in (if trace s' \<noteq> trace s then [u] else []) @ accepted rv w s' us)"

section \<open>The scheduler: \<open>processQueueLoop\<close>\<close>

text \<open>
  The text handed to the synthesis call. DatabaseBridge.tsx (150) takes the queued text
  as it is; part_001 (144-154) wraps it according to the voice style, the filler excepted.
\<close>

definition scriptedTextOf :: "revision \<Rightarrow> VoiceStyle \<Rightarrow> string \<Rightarrow> string" where
  "scriptedTextOf rv style rawText =
     (case rv of
        Bridge \<Rightarrow> rawText
      | Part001 \<Rightarrow>
          if rawText \<noteq> ''(clears throat)'' then
            (if style = Breathy then ''(soft inhale) '' @ rawText @ '' ... (pause)''
             else if style = Dramatic then ''(slowly) '' @ rawText @ '' ... (long pause)''
             else rawText)
          else rawText)"

text \<open>
  The text handed to \<open>client.send\<close> when the synthesis call fails: DatabaseBridge.tsx
  (165-166) removes the speaker label, part_001 (173) sends the scripted text.
\<close>

definition fallbackText :: "revision \<Rightarrow> string \<Rightarrow> string" where
  "fallbackText rv scriptedText =
     (case rv of Bridge \<Rightarrow> cleanText scriptedText | Part001 \<Rightarrow> scriptedText)"

text \<open>
  The test of the arrival wait (DatabaseBridge.tsx 175-176), made at time \<open>t\<close> against the
  snapshot taken before the call:
  \<open>currentState.endOfQueueTime > preSendState.endOfQueueTime + 0.1\<close>, where the sum is the
  rounded one.
\<close>

definition arrived :: "world \<Rightarrow> AudioStreamerState \<Rightarrow> nat \<Rightarrow> bool" where
  "arrived w preSendState t \<longleftrightarrow>
     endOfQueueTime (streamer_at w t) > fl (endOfQueueTime preSendState + tenth)"

text \<open>
  The wait for the audio to arrive (DatabaseBridge.tsx 172-181): \<open>t\<close> is the clock at the
  test of the loop condition; the result says whether the audio arrived, and when the wait
  ended. The timers being taken as exact, a sleep ends 100 ms after it began.
\<close>

function awaitArrival :: "world \<Rightarrow> AudioStreamerState \<Rightarrow> nat \<Rightarrow> nat \<Rightarrow> bool \<times> nat" where
  "awaitArrival w preSendState waitStart t =
     (if t - waitStart < 15000 then
        (if arrived w preSendState t
         then (True, t)
         else awaitArrival w preSendState waitStart (t + 100))
      else (False, t))"
  by pat_completeness auto
termination
  by (relation "measure (\<lambda>(w, p, waitStart, t). waitStart + 15000 - t)") auto

declare awaitArrival.simps [simp del]

text \<open>
  The pipelining wait (DatabaseBridge.tsx 187-191), a \<open>while (true)\<close>: the result is the
  time at which it ends, \<open>None\<close> when it never does.
\<close>

partial_function (option) pipeliningWait :: "world \<Rightarrow> nat \<Rightarrow> nat option" where
  "pipeliningWait w t =
     (if duration (streamer_at w t) < 3 then Some t else pipeliningWait w (t + 200))"

declare pipeliningWait.simps [code]

text \<open>
  The synthesis call and the fallback (DatabaseBridge.tsx 161-167): the call is awaited,
  which takes its latency; when it resolves to false, the fallback text goes to
  \<open>client.send\<close>, which may throw.
\<close>

definition submit :: "revision \<Rightarrow> world \<Rightarrow> string \<Rightarrow> bridge \<Rightarrow> bridge" where
  "submit rv w scriptedText s =
     (let success = synth_ok w (now s) scriptedText;
          s1 = s\<lparr>trace := trace s @ [Synthesize (now s) scriptedText],
                 now := now s + synth_latency w (now s) scriptedText\<rparr>
      in if success then s1
         else s1\<lparr>trace := trace s1 @ [Send (now s1) (fallbackText rv scriptedText)]\<rparr>)"

definition submitThrows :: "revision \<Rightarrow> world \<Rightarrow> string \<Rightarrow> bridge \<Rightarrow> bool" where
  "submitThrows rv w scriptedText s \<longleftrightarrow>
     \<not> synth_ok w (now s) scriptedText \<and>
     send_throws w (now s + synth_latency w (now s) scriptedText) (fallbackText rv scriptedText)"

text \<open>
  The two waits one after the other (DatabaseBridge.tsx 172-191), with the warning when
  the first one times out.
\<close>

definition waits :: "world \<Rightarrow> AudioStreamerState \<Rightarrow> bridge \<Rightarrow> bridge option" where
  "waits w preSendState s =
     (let arrival = awaitArrival w preSendState (now s) (now s);
          s' = s\<lparr>now := snd arrival,
                 trace := (if fst arrival then trace s else trace s @ [Warn (snd arrival)])\<rparr>
      in map_option (\<lambda>t. s'\<lparr>now := t\<rparr>) (pipeliningWait w (now s')))"

text \<open>
  One test of the condition of the outer \<open>while\<close> and, when the queue is not empty, one
  pass through its body (DatabaseBridge.tsx 144-192). The loop is left when the queue is
  empty, by the \<open>return\<close> of the connection check, or by an error thrown by \<open>client.send\<close>.
\<close>

datatype exit = Completed | Disconnected | Thrown

datatype step = Continue bridge | Exit exit bridge

definition iteration :: "revision \<Rightarrow> world \<Rightarrow> bridge \<Rightarrow> step option" where
  "iteration rv w s =
     (case queueRef s of
        [] \<Rightarrow> Some (Exit Completed s)
      | rawText # rest \<Rightarrow>
          if \<not> connected_at w (now s)
          then Some (Exit Disconnected (s\<lparr>isProcessingRef := False\<rparr>))
          else
            let scriptedText = scriptedTextOf rv (voiceStyleRef s) rawText
            in if scriptedText = [] \<or> trim scriptedText = []
               then Some (Continue (s\<lparr>queueRef := rest\<rparr>))
               else
                 let preSendState = streamer_at w (now s);
                     s' = submit rv w scriptedText s
                 in if submitThrows rv w scriptedText s
                    then Some (Exit Thrown s')
                    else map_option Continue (waits w preSendState (s'\<lparr>queueRef := rest\<rparr>)))"

function queueWhile :: "revision \<Rightarrow> world \<Rightarrow> bridge \<Rightarrow> (exit \<times> bridge) option" where
  "queueWhile rv w s =
     (case iteration rv w s of
        None \<Rightarrow> None
      | Some (Exit e s') \<Rightarrow> Some (e, s')
      | Some (Continue s') \<Rightarrow> queueWhile rv w s')"
  by pat_completeness auto
termination
proof (relation "measure (\<lambda>(rv, w, s). length (queueRef s))")
  show "wf (measure (\<lambda>(rv :: revision, w :: world, s). length (queueRef s)))"
    by simp
next
  fix rv :: revision and w :: world and s :: bridge and x :: step and s' :: bridge
  assume "iteration rv w s = Some x" and "x = Continue s'"
  then have it: "iteration rv w s = Some (Continue s')"
    by simp
  have "length (queueRef s') < length (queueRef s)"
  proof (cases "queueRef s")
    case Nil
    with it show ?thesis by (simp add: iteration_def)
  next
    case (Cons rawText rest)
    have "queueRef s' = rest"
      using it Cons
      by (auto simp: iteration_def Let_def waits_def split: if_split_asm)
    with Cons show ?thesis by simp
  qed
  then show "((rv, w, s'), (rv, w, s)) \<in> measure (\<lambda>(rv, w, s). length (queueRef s))"
    by simp
qed

declare queueWhile.simps [simp del]

text \<open>
  Whether the two waits, begun at time \<open>t\<close>, sleep at all: they do not when the first test of
  each finds its condition met (DatabaseBridge.tsx 176, 189).
\<close>

definition sleeps :: "world \<Rightarrow> AudioStreamerState \<Rightarrow> nat \<Rightarrow> bool" where
  "sleeps w preSendState t \<longleftrightarrow>
     \<not> (arrived w preSendState t \<and> duration (streamer_at w t) < 3)"

text \<open>
  The refs as other code finds them while one pass through the loop body is suspended
  (DatabaseBridge.tsx 150-191): at the \<open>await\<close> of the synthesis call (161), when the call has
  been made and the head is still in the queue; and at the sleeps of the two waits (180,
  190), if there are any, when the head has been removed. During the waits the refs stay as
  they are; only the clock and, after a timeout, the trace go on.
\<close>

definition pauses :: "revision \<Rightarrow> world \<Rightarrow> bridge \<Rightarrow> bridge list" where
  "pauses rv w s =
     (case queueRef s of
        [] \<Rightarrow> []
      | rawText # rest \<Rightarrow>
          if \<not> connected_at w (now s) then []
          else
            let scriptedText = scriptedTextOf rv (voiceStyleRef s) rawText
            in if scriptedText = [] \<or> trim scriptedText = [] then []
               else
                 let preSendState = streamer_at w (now s);
                     s' = submit rv w scriptedText s
                 in s\<lparr>trace := trace s @ [Synthesize (now s) scriptedText]\<rparr> #
                    (if \<not> submitThrows rv w scriptedText s \<and> sleeps w preSendState (now s')
                     then [s'\<lparr>queueRef := rest\<rparr>] else []))"

text \<open>The same for the whole loop, from the test of its condition in state \<open>s\<close> on.\<close>

function allPauses :: "revision \<Rightarrow> world \<Rightarrow> bridge \<Rightarrow> bridge list" where
  "allPauses rv w s =
     pauses rv w s @
     (case iteration rv w s of
        Some (Continue s') \<Rightarrow> allPauses rv w s'
      | _ \<Rightarrow> [])"
  by pat_completeness auto
termination
proof (relation "measure (\<lambda>(rv, w, s). length (queueRef s))")
  show "wf (measure (\<lambda>(rv :: revision, w :: world, s). length (queueRef s)))"
    by simp
next
  fix rv :: revision and w :: world and s :: bridge and x :: step and s' :: bridge
  assume "iteration rv w s = Some x" and "x = Continue s'"
  then have it: "iteration rv w s = Some (Continue s')"
    by simp
  have "length (queueRef s') < length (queueRef s)"
  proof (cases "queueRef s")
    case Nil
    with it show ?thesis by (simp add: iteration_def)
  next
    case (Cons rawText rest)
    have "queueRef s' = rest"
      using it Cons
      by (auto simp: iteration_def Let_def waits_def split: if_split_asm)
    with Cons show ?thesis by simp
  qed
  then show "((rv, w, s'), (rv, w, s)) \<in> measure (\<lambda>(rv, w, s). length (queueRef s))"
    by simp
qed

declare allPauses.simps [simp del]

text \<open>
  A call of \<open>processQueueLoop\<close> (DatabaseBridge.tsx 139-198): the guard, the flag, the \<open>try\<close>
  around the loop, the \<open>catch\<close> that logs the error, and the \<open>finally\<close>. The result is the
  refs as other code finds them at the suspensions of the call, in order (none when the
  guard turns the call away), and the refs at its return (\<open>None\<close>: the call never returns).
  The call is followed as if nothing else changed the refs while it is suspended.
\<close>

definition loopCall :: "revision \<Rightarrow> world \<Rightarrow> bridge \<Rightarrow> bridge list \<times> bridge option" where
  "loopCall rv w s =
     (if isProcessingRef s then ([], Some s)
      else
        let s1 = s\<lparr>isProcessingRef := True\<rparr>
        in (allPauses rv w s1,
            (case queueWhile rv w s1 of
               None \<Rightarrow> None
             | Some (e, s') \<Rightarrow>
                 let s'' = (if e = Thrown then s'\<lparr>trace := trace s' @ [LogError (now s')]\<rparr>
                            else s')
                 in Some (s''\<lparr>isProcessingRef := False\<rparr>))))"

text \<open>The refs at the return of a call of \<open>processQueueLoop\<close>.\<close>

definition processQueueLoop :: "revision \<Rightarrow> world \<Rightarrow> bridge \<Rightarrow> bridge option" where
  "processQueueLoop rv w s = snd (loopCall rv w s)"

text \<open>The refs at its suspensions.\<close>

definition suspensions :: "revision \<Rightarrow> world \<Rightarrow> bridge \<Rightarrow> bridge list" where
  "suspensions rv w s = fst (loopCall rv w s)"

text \<open>
  The effect that defines the loop (DatabaseBridge.tsx 131-136, 200-202), up to the call
  that starts the loop; it runs again whenever \<open>connected\<close> (here \<open>connected'\<close>) or another
  of its dependencies has changed. Supabase is taken as configured. The result says also
  whether \<open>processQueueLoop()\<close> is called; the call is not awaited.
\<close>

definition effect :: "bool \<Rightarrow> bridge \<Rightarrow> bridge \<times> bool" where
  "effect connected' s =
     (let s1 = s\<lparr>isProcessingRef := False\<rparr>
      in if \<not> connected' then (s1, False)
         else (s1, length (queueRef s1) > 0))"

text \<open>The texts handed to the synthesis call and to \<open>client.send\<close>, in order.\<close>

fun synthesized :: "event list \<Rightarrow> string list" where
  "synthesized [] = []"
| "synthesized (Synthesize t x # es) = x # synthesized es"
| "synthesized (e # es) = synthesized es"

fun sent :: "event list \<Rightarrow> string list" where
  "sent [] = []"
| "sent (Send t x # es) = x # sent es"
| "sent (e # es) = sent es"

text \<open>What a call of \<open>processQueueLoop\<close> leaves in the trace, when it returns.\<close>

definition synthesizedBy :: "bridge option \<Rightarrow> string list option" where
  "synthesizedBy r = map_option (\<lambda>s. synthesized (trace s)) r"


definition tracedBy :: "bridge option \<Rightarrow> event list option" where
  "tracedBy r = map_option trace r"

text \<open>What it leaves in the queue.\<close>

definition queuedBy :: "bridge option \<Rightarrow> string list option" where
  "queuedBy r = map_option queueRef r"

text \<open>The test \<open>!scriptedText || !scriptedText.trim()\<close> of the loop body.\<close>

definition blank :: "string \<Rightarrow> bool" where
  "blank scriptedText \<longleftrightarrow> scriptedText = [] \<or> trim scriptedText = []"

text \<open>The scripted texts of a list of queued texts that the loop body does not skip.\<close>

abbreviation speakable :: "revision \<Rightarrow> VoiceStyle \<Rightarrow> string list \<Rightarrow> string list" where
  "speakable rv style q \<equiv> filter (\<lambda>x. \<not> blank x) (map (scriptedTextOf rv style) q)"

text \<open>
  The guards of \<open>processNewData\<close> taken together: the update has a text, the text is not
  empty, and the id is not the one kept in \<open>lastProcessedIdRef\<close>.
\<close>

definition passes :: "bridge \<Rightarrow> Transcript \<Rightarrow> bool" where
  "passes s u \<longleftrightarrow>
     (case full_transcript_text u of
        None \<Rightarrow> False
      | Some t \<Rightarrow> t \<noteq> [] \<and> lastProcessedIdRef s \<noteq> Some (id_t u))"

section \<open>Concrete collaborators and inputs\<close>

text \<open>
  \<open>steadyWorld\<close>: the connection stays up, every synthesis call succeeds after half a
  second, the audio it produces is in the buffer when the call resolves (the end of the
  buffer is the double nearest to the time in seconds), and the buffer never holds three
  seconds of audio.
\<close>

definition steadyWorld :: world where
  "steadyWorld =
     \<lparr>connected_at = (\<lambda>t. True),
      streamer_at = (\<lambda>t. \<lparr>endOfQueueTime = fl (real t / 1000), duration = 0\<rparr>),
      synth_ok = (\<lambda>t x. True),
      synth_latency = (\<lambda>t x. 500),
      send_throws = (\<lambda>t x. False),
      flash_text = (\<lambda>x l. None)\<rparr>"

definition update :: "string \<Rightarrow> string option \<Rightarrow> string \<Rightarrow> Transcript" where
  "update i t u =
     \<lparr>id_t = i, session_id = ''s'', user_id = ''u'', source_language = ''en'',
      full_transcript_text = t, created_at = ''2025-01-01'', updated_at = u\<rparr>"

text \<open>
  \<open>stuckWorld\<close>: as \<open>steadyWorld\<close>, but the buffer always holds five seconds of audio.
  \<open>silentWorld\<close>: as \<open>steadyWorld\<close>, but no audio ever reaches the buffer.
\<close>

definition stuckWorld :: world where
  "stuckWorld =
     steadyWorld\<lparr>streamer_at := (\<lambda>t. \<lparr>endOfQueueTime = fl (real t / 1000), duration = 5\<rparr>)\<rparr>"

definition silentWorld :: world where
  "silentWorld =
     steadyWorld\<lparr>streamer_at := (\<lambda>t. \<lparr>endOfQueueTime = 0, duration = 0\<rparr>)\<rparr>"

text \<open>
  \<open>failingFor b\<close>: as \<open>steadyWorld\<close>, but the synthesis call fails for the text \<open>b\<close>.
  \<open>throwingWorld\<close>: every synthesis call fails and \<open>client.send\<close> throws.
  \<open>offlineWorld\<close>: the connection is down.
  \<open>flappingWorld\<close>: the connection is down from 0.1 s to 2 s, and up before and after;
  the buffer holds five seconds of audio until 2 s, and none from then on.
\<close>

definition failingFor :: "string \<Rightarrow> world" where
  "failingFor b = steadyWorld\<lparr>synth_ok := (\<lambda>t x. x \<noteq> b)\<rparr>"

definition throwingWorld :: world where
  "throwingWorld = steadyWorld\<lparr>synth_ok := (\<lambda>t x. False), send_throws := (\<lambda>t x. True)\<rparr>"

definition offlineWorld :: world where
  "offlineWorld = steadyWorld\<lparr>connected_at := (\<lambda>t. False)\<rparr>"

definition flappingWorld :: world where
  "flappingWorld =
     steadyWorld
       \<lparr>connected_at := (\<lambda>t. t < 100 \<or> 2000 \<le> t),
        streamer_at := (\<lambda>t. \<lparr>endOfQueueTime = fl (real t / 1000),
                                duration = (if t < 2000 then 5 else 0)\<rparr>)\<rparr>"

text \<open>
  \<open>roundingWorld\<close>: as \<open>steadyWorld\<close>, but the buffer ends at 0.2 s before the synthesis
  call resolves, and at 0.30000000000000004 s from then on (the doubles written so in
  decimal, the second being what \<open>0.2 + 0.1\<close> evaluates to).
\<close>

definition roundingWorld :: world where
  "roundingWorld =
     steadyWorld
       \<lparr>streamer_at :=
          (\<lambda>t. \<lparr>endOfQueueTime =
                   (if t < 500 then 3602879701896397 / 2 ^ 54 else 5404319552844596 / 2 ^ 54),
                 duration = 0\<rparr>)\<rparr>"

definition queued :: "VoiceStyle \<Rightarrow> string list \<Rightarrow> bridge" where
  "queued style q = (initial style ''English'')\<lparr>queueRef := q\<rparr>"

text \<open>Four lines of text among empty ones, with both kinds of line break.\<close>

definition sampleText :: string where
  "sampleText =
     ''one'' @ [CR, LF, LF] @ '' two '' @ [LF] @ ''   '' @ [LF] @ ''three'' @ [CR, LF] @ ''four''"

section \<open>The deduplicator\<close>

lemma pushSegments_other [simp]:
  "trace (pushSegments segs s) = trace s"
  "lastProcessedIdRef (pushSegments segs s) = lastProcessedIdRef s"
  "isProcessingRef (pushSegments segs s) = isProcessingRef s"
  "now (pushSegments segs s) = now s"
  "voiceStyleRef (pushSegments segs s) = voiceStyleRef s"
  "languageRef (pushSegments segs s) = languageRef s"
  by (induction segs arbitrary: s) (simp_all add: Let_def)

lemma processNewData_rejected:
  "\<not> passes s u \<Longrightarrow> processNewData rv w s u = (s, False)"
  by (auto simp: processNewData_def passes_def split: option.splits)

lemma processNewData_accepted:
  assumes "full_transcript_text u = Some t" "t \<noteq> []" "lastProcessedIdRef s \<noteq> Some (id_t u)"
  shows "lastProcessedIdRef (fst (processNewData rv w s u)) = Some (id_t u)"
    and "trace (fst (processNewData rv w s u)) =
           trace s @ AddTurn t #
             (case rv of
                Bridge \<Rightarrow>
                  [UpdateLastTurn (diarizeAndTranslate w t
                     (if languageRef s = [] then ''English'' else languageRef s))]
              | Part001 \<Rightarrow> [])"
  using assms by (auto simp: processNewData_def Let_def split: revision.splits)

lemma passesE:
  assumes "passes s u"
  obtains t where "full_transcript_text u = Some t" "t \<noteq> []"
    "lastProcessedIdRef s \<noteq> Some (id_t u)"
  using assms by (auto simp: passes_def split: option.splits)

lemma accepted_Cons:
  "accepted rv w s (u # us) =
     (if passes s u then [u] else []) @ accepted rv w (fst (processNewData rv w s u)) us"
proof (cases "passes s u")
  case True
  then obtain t where t: "full_transcript_text u = Some t" "t \<noteq> []"
    and l: "lastProcessedIdRef s \<noteq> Some (id_t u)" by (rule passesE)
  from True processNewData_accepted(2)[OF t l, of rv w] show ?thesis
    by (simp add: Let_def)
next
  case False
  with processNewData_rejected[OF False, of rv w] show ?thesis by (simp add: Let_def)
qed

declare accepted.simps(2) [simp del]

lemma accepted_adjacent:
  "distinct_adj (map id_t (accepted rv w s us)) \<and>
   (\<forall>u us'. accepted rv w s us = u # us' \<longrightarrow> lastProcessedIdRef s \<noteq> Some (id_t u))"
proof (induction us arbitrary: s)
  case Nil
  then show ?case by simp
next
  case (Cons u us)
  let ?s' = "fst (processNewData rv w s u)"
  show ?case
  proof (cases "passes s u")
    case False
    with processNewData_rejected[OF False, of rv w] Cons.IH[of s] show ?thesis
      by (simp add: accepted_Cons)
  next
    case True
    then obtain t where t: "full_transcript_text u = Some t" "t \<noteq> []"
      and l: "lastProcessedIdRef s \<noteq> Some (id_t u)" by (rule passesE)
    have last: "lastProcessedIdRef ?s' = Some (id_t u)"
      using processNewData_accepted(1)[OF t l] .
    have "distinct_adj (map id_t (u # accepted rv w ?s' us))"
      using Cons.IH[of ?s'] last
      by (cases "accepted rv w ?s' us") (auto simp: distinct_adj_Cons)
    with True l show ?thesis
      by (simp add: accepted_Cons)
  qed
qed

text \<open>
  C3, as the claim states it, fails: the component remembers one id only, so an id that comes
  back after another id was accepted is accepted a second time. Here the updates carry
  the ids a, b, a.
\<close>

theorem dedup_repeated_id_counterexample:
  "map id_t (accepted Part001 steadyWorld (initial Natural ''English'')
      [update ''a'' (Some ''x'') ''1'', update ''b'' (Some ''y'') ''2'',
       update ''a'' (Some ''x'') ''1'']) = [''a'', ''b'', ''a'']"
  by (simp add: accepted_Cons passes_def update_def initial_def processNewData_accepted
     )

text \<open>
  C3, amended: an update with a non-empty text is rejected exactly when its id is the one
  accepted last; a rejected update changes nothing; an accepted one puts its id into
  \<open>lastProcessedIdRef\<close>; the time stamps play no part; and in every sequence of updates two
  updates accepted one after the other carry different ids.
\<close>

theorem dedup_by_last_id:
  assumes "full_transcript_text u = Some t" and "t \<noteq> []"
  shows "((accepted rv w s [u] = []) = (lastProcessedIdRef s = Some (id_t u))) \<and>
         (accepted rv w s [u] = [] \<longrightarrow> processNewData rv w s u = (s, False)) \<and>
         (accepted rv w s [u] \<noteq> [] \<longrightarrow>
            accepted rv w s [u] = [u] \<and>
            lastProcessedIdRef (fst (processNewData rv w s u)) = Some (id_t u)) \<and>
         processNewData rv w s (u\<lparr>created_at := c, updated_at := d\<rparr>) =
           processNewData rv w s u \<and>
         distinct_adj (map id_t (accepted rv w s us))"
proof -
  have p: "passes s u = (lastProcessedIdRef s \<noteq> Some (id_t u))"
    using assms by (simp add: passes_def)
  have a: "accepted rv w s [u] = (if passes s u then [u] else [])"
    by (simp add: accepted_Cons)
  have 1: "(accepted rv w s [u] = []) = (lastProcessedIdRef s = Some (id_t u))"
    by (simp add: a p)
  have 2: "accepted rv w s [u] = [] \<longrightarrow> processNewData rv w s u = (s, False)"
    using processNewData_rejected[of s u rv w] by (simp add: a)
  have 3: "accepted rv w s [u] \<noteq> [] \<longrightarrow>
            accepted rv w s [u] = [u] \<and>
            lastProcessedIdRef (fst (processNewData rv w s u)) = Some (id_t u)"
    using processNewData_accepted(1)[OF assms, of s rv w] by (simp add: a p)
  have 4: "processNewData rv w s (u\<lparr>created_at := c, updated_at := d\<rparr>) =
           processNewData rv w s u"
    by (simp add: processNewData_def cong: option.case_cong if_cong)
  from 1 2 3 4 accepted_adjacent[of rv w s us] show ?thesis by blast
qed

theorem dedup_by_last_id_witness:
  "full_transcript_text (update ''a'' (Some ''x'') ''1'') = Some ''x'' \<and> ''x'' \<noteq> [] \<and>
   accepted Bridge steadyWorld (initial Natural ''English'') [update ''a'' (Some ''x'') ''1'']
     = [update ''a'' (Some ''x'') ''1''] \<and>
   lastProcessedIdRef (fst (processNewData Bridge steadyWorld (initial Natural ''English'')
     (update ''a'' (Some ''x'') ''1''))) = Some ''a''"
proof -
  have h1: "full_transcript_text (update ''a'' (Some ''x'') ''1'') = Some ''x''"
    by (simp add: update_def)
  have h2: "''x'' \<noteq> []" by simp
  have l: "lastProcessedIdRef (initial Natural ''English'') \<noteq>
             Some (id_t (update ''a'' (Some ''x'') ''1''))"
    by (simp add: initial_def)
  have i: "id_t (update ''a'' (Some ''x'') ''1'') = ''a''"
    by (simp add: update_def)
  from dedup_by_last_id[OF h1 h2, of Bridge steadyWorld "initial Natural ''English''"] l i h1
  show ?thesis by auto
qed

text \<open>
  C10: an update without a text, or with the empty text, leaves every ref as it was,
  whatever its id; the same id with a text is accepted afterwards; and
  \<open>lastProcessedIdRef\<close> changes only for an update with a non-empty text and an id other
  than the one it holds, to that id.
\<close>

theorem empty_text_discarded:
  "(full_transcript_text u = None \<or> full_transcript_text u = Some [] \<longrightarrow>
      processNewData rv w s u = (s, False)) \<and>
   (t \<noteq> [] \<and> lastProcessedIdRef s \<noteq> Some (id_t u) \<longrightarrow>
      accepted rv w s
        [u\<lparr>full_transcript_text := None\<rparr>, u\<lparr>full_transcript_text := Some []\<rparr>,
         u\<lparr>full_transcript_text := Some t\<rparr>] = [u\<lparr>full_transcript_text := Some t\<rparr>]) \<and>
   (lastProcessedIdRef (fst (processNewData rv w s u)) \<noteq> lastProcessedIdRef s \<longrightarrow>
      (\<exists>x. full_transcript_text u = Some x \<and> x \<noteq> []) \<and>
      lastProcessedIdRef s \<noteq> Some (id_t u) \<and>
      lastProcessedIdRef (fst (processNewData rv w s u)) = Some (id_t u))"
proof -
  have 1: "full_transcript_text u = None \<or> full_transcript_text u = Some [] \<longrightarrow>
      processNewData rv w s u = (s, False)"
  proof
    assume "full_transcript_text u = None \<or> full_transcript_text u = Some []"
    then have "\<not> passes s u" by (auto simp: passes_def)
    then show "processNewData rv w s u = (s, False)" by (rule processNewData_rejected)
  qed
  have 2: "t \<noteq> [] \<and> lastProcessedIdRef s \<noteq> Some (id_t u) \<longrightarrow>
      accepted rv w s
        [u\<lparr>full_transcript_text := None\<rparr>, u\<lparr>full_transcript_text := Some []\<rparr>,
         u\<lparr>full_transcript_text := Some t\<rparr>] = [u\<lparr>full_transcript_text := Some t\<rparr>]"
    by (simp add: accepted_Cons passes_def processNewData_rejected)
  have 3: "lastProcessedIdRef (fst (processNewData rv w s u)) \<noteq> lastProcessedIdRef s \<longrightarrow>
      (\<exists>x. full_transcript_text u = Some x \<and> x \<noteq> []) \<and>
      lastProcessedIdRef s \<noteq> Some (id_t u) \<and>
      lastProcessedIdRef (fst (processNewData rv w s u)) = Some (id_t u)"
  proof
    assume ch: "lastProcessedIdRef (fst (processNewData rv w s u)) \<noteq> lastProcessedIdRef s"
    have p: "passes s u"
    proof (rule ccontr)
      assume "\<not> passes s u"
      then have "processNewData rv w s u = (s, False)" by (rule processNewData_rejected)
      with ch show False by simp
    qed
    then obtain x where x: "full_transcript_text u = Some x" "x \<noteq> []"
      and l: "lastProcessedIdRef s \<noteq> Some (id_t u)" by (rule passesE)
    from x l processNewData_accepted(1)[OF x l, of rv w]
    show "(\<exists>x. full_transcript_text u = Some x \<and> x \<noteq> []) \<and>
        lastProcessedIdRef s \<noteq> Some (id_t u) \<and>
        lastProcessedIdRef (fst (processNewData rv w s u)) = Some (id_t u)"
      by blast
  qed
  from 1 2 3 show ?thesis by blast
qed

theorem empty_text_discarded_witness:
  "processNewData Part001 steadyWorld (initial Natural ''English'') (update ''a'' (Some []) ''1'')
     = (initial Natural ''English'', False) \<and>
   accepted Part001 steadyWorld (initial Natural ''English'')
     [update ''a'' None ''1'', update ''a'' (Some []) ''1'', update ''a'' (Some ''x'') ''1'']
     = [update ''a'' (Some ''x'') ''1'']"
  using empty_text_discarded[of "update ''a'' (Some []) ''1''" Part001 steadyWorld
      "initial Natural ''English''" "''x''"]
  by (simp add: update_def initial_def)

section \<open>The segmenter\<close>

lemma trim_snoc:
  assumes "isWhiteSpace c"
  shows "trim (xs @ [c]) = trim xs"
proof (cases "\<forall>x\<in>set xs. isWhiteSpace x")
  case True
  then have e: "dropWhile isWhiteSpace (xs @ [c]) = []" "dropWhile isWhiteSpace xs = []"
    using assms by (simp_all only: dropWhile_eq_Nil_conv) auto
  show ?thesis unfolding trim_def e by simp
next
  case False
  then have "dropWhile isWhiteSpace (xs @ [c]) = dropWhile isWhiteSpace xs @ [c]"
    by (auto simp: dropWhile_append1)
  then show ?thesis using assms by (simp add: trim_def)
qed

lemma trim_Nil [simp]: "trim [] = []"
  by (simp add: trim_def)

lemma trim_idem: "trim (trim s) = trim s"
proof -
  let ?a = "dropWhile isWhiteSpace s"
  let ?b = "dropWhile isWhiteSpace (rev ?a)"
  show ?thesis
  proof (cases "?b = []")
    case True
    then have "trim s = []" by (simp add: trim_def)
    then show ?thesis by simp
  next
    case False
    then have a: "?a \<noteq> []" by (metis dropWhile.simps(1) rev.simps(1))
    then have ha: "\<not> isWhiteSpace (hd ?a)" by (rule hd_dropWhile)
    have hb: "\<not> isWhiteSpace (hd ?b)" using False by (rule hd_dropWhile)
    from False have "last ?a = hd (rev ?a)" using a by (simp add: hd_rev)
    obtain k where k: "?b = drop k (rev ?a)" 
      by (metis dropWhile_eq_drop)
    have "rev ?b = take (length ?a - k) ?a"
      by (simp add: k rev_drop)
    moreover have "length ?a - k > 0" using False k by auto
    ultimately have "hd (rev ?b) = hd ?a"
      by (metis a hd_take length_greater_0_conv take_eq_Nil)
    with ha have 1: "dropWhile isWhiteSpace (rev ?b) = rev ?b"
      by (metis False dropWhile_eq_self_iff rev_is_Nil_conv list.set_sel(1) hd_in_set)
    have 2: "dropWhile isWhiteSpace ?b = ?b"
      using hb False by (metis dropWhile_idem)
    show ?thesis by (simp add: trim_def 1 2)
  qed
qed

lemma lines_of_leading_LF:
  "kept (lines_of [] (dropWhile (\<lambda>x. x = LF) cs)) = kept (lines_of [] cs)"
  by (induction cs) simp_all

lemma LF_ws: "isWhiteSpace LF" and CR_ws: "isWhiteSpace CR"
  by (simp_all add: isWhiteSpace_def LF_def CR_def)

lemma split_refines_lines:
  "kept (split_line_breaks cur s) = kept (lines_of cur s)"
proof (induction cur s rule: split_line_breaks.induct)
  case (1 cur)
  then show ?case by simp
next
  case (2 cur c cs)
  show ?case
  proof (cases "c = LF")
    case True
    with 2(1) show ?thesis by (simp add: lines_of_leading_LF)
  next
    case nl: False
    show ?thesis
    proof (cases "c = CR \<and> cs \<noteq> [] \<and> hd cs = LF")
      case True
      then obtain cs' where cs: "cs = LF # cs'" by (cases cs) auto
      have "kept (lines_of [] (dropWhile (\<lambda>x. x = LF) cs)) = kept (lines_of [] cs')"
        unfolding lines_of_leading_LF by (simp add: cs)
      with 2(2)[OF nl True] True nl show ?thesis
        by (simp add: cs trim_snoc CR_ws)
    next
      case False
      with 2(3)[OF nl False] nl show ?thesis by auto
    qed
  qed
qed

lemma segmentText_nonEmptyLines: "segmentText text = nonEmptyLines text"
  by (cases "text = []") (simp_all add: segmentText_def nonEmptyLines_def split_refines_lines)

lemma pushSegments_queue:
  "queueRef (pushSegments segs s) =
     queueRef s @ concat (map (\<lambda>(k, seg). if k mod 3 = 0 then [seg, ''(clears throat)''] else [seg])
                        (enumerate (Suc (paragraphCountRef s)) segs)) \<and>
   paragraphCountRef (pushSegments segs s) = paragraphCountRef s + length segs"
  by (induction segs arbitrary: s) (simp_all add: Let_def)

lemma nonEmptyLines_sampleText:
  "nonEmptyLines sampleText = [''one'', ''two'', ''three'', ''four'']"
  by (simp add: nonEmptyLines_def sampleText_def trim_def isWhiteSpace_def LF_def CR_def)

lemma nonEmptyLines_labelled:
  "nonEmptyLines (diarizeAndTranslate steadyWorld sampleText ''English'') =
     [''Male 1: one'', ''two'', ''three'', ''four'']"
  by (simp add: diarizeAndTranslate_def steadyWorld_def nonEmptyLines_def sampleText_def
        trim_def isWhiteSpace_def LF_def CR_def)

text \<open>
  C8, as the claim states it, fails in DatabaseBridge.tsx: there \<open>processNewData\<close> pushes no
  filler and does not count. Here the count stands at 2 and the translation request fails,
  so that the script is the text under the label \<open>Male 1\<close>: its first segment would be
  the third, but no filler follows it, and the count is still 2.
\<close>

theorem bridge_pushes_no_filler_counterexample:
  "queueRef (fst (processNewData Bridge steadyWorld
       ((initial Natural ''English'')\<lparr>paragraphCountRef := 2\<rparr>)
       (update ''a'' (Some sampleText) ''1''))) =
     [''Male 1: one'', ''two'', ''three'', ''four''] \<and>
   paragraphCountRef (fst (processNewData Bridge steadyWorld
       ((initial Natural ''English'')\<lparr>paragraphCountRef := 2\<rparr>)
       (update ''a'' (Some sampleText) ''1''))) = 2"
proof -
  have t: "sampleText \<noteq> []"
    by (simp add: sampleText_def)
  show ?thesis
    using t
    by (simp add: processNewData_def Let_def update_def initial_def
          segmentText_nonEmptyLines nonEmptyLines_labelled)
qed

text \<open>
  C8, amended: \<open>segmentText\<close> returns the non-empty lines of the text, trimmed, in their
  order (so n of them when the text has n non-empty lines). When part_001 accepts an update
  with this text, the queue grows by these segments, in order, with the filler after each
  segment whose number in the running count \<open>paragraphCountRef\<close> is a multiple of three;
  the count goes on from where the last update left it. When DatabaseBridge.tsx accepts the
  update, the queue grows by the segments of the diarized script of the text, in order and
  with no filler, and the count stays as it is.
\<close>

theorem segmenter_lines_and_filler:
  "segmentText text = nonEmptyLines text \<and>
   (\<forall>seg \<in> set (segmentText text). seg \<noteq> [] \<and> trim seg = seg) \<and>
   (text \<noteq> [] \<and> full_transcript_text u = Some text \<and>
    lastProcessedIdRef s \<noteq> Some (id_t u) \<longrightarrow>
      queueRef (fst (processNewData Part001 w s u)) =
        queueRef s @
        concat (map (\<lambda>(k, seg). if k mod 3 = 0 then [seg, ''(clears throat)''] else [seg])
                 (enumerate (Suc (paragraphCountRef s)) (nonEmptyLines text))) \<and>
      paragraphCountRef (fst (processNewData Part001 w s u)) =
        paragraphCountRef s + length (nonEmptyLines text)) \<and>
   (text \<noteq> [] \<and> full_transcript_text u = Some text \<and>
    lastProcessedIdRef s \<noteq> Some (id_t u) \<longrightarrow>
      queueRef (fst (processNewData Bridge w s u)) =
        queueRef s @
        nonEmptyLines
          (diarizeAndTranslate w text (if languageRef s = [] then ''English'' else languageRef s)) \<and>
      paragraphCountRef (fst (processNewData Bridge w s u)) = paragraphCountRef s)"
proof -
  have 1: "segmentText text = nonEmptyLines text"
    by (rule segmentText_nonEmptyLines)
  have 2: "\<forall>seg \<in> set (segmentText text). seg \<noteq> [] \<and> trim seg = seg"
    unfolding 1 by (auto simp: nonEmptyLines_def trim_idem)
  have 3: "text \<noteq> [] \<and> full_transcript_text u = Some text \<and>
    lastProcessedIdRef s \<noteq> Some (id_t u) \<longrightarrow>
      queueRef (fst (processNewData Part001 w s u)) =
        queueRef s @
        concat (map (\<lambda>(k, seg). if k mod 3 = 0 then [seg, ''(clears throat)''] else [seg])
                 (enumerate (Suc (paragraphCountRef s)) (nonEmptyLines text))) \<and>
      paragraphCountRef (fst (processNewData Part001 w s u)) =
        paragraphCountRef s + length (nonEmptyLines text)"
    by (cases "nonEmptyLines text = []")
       (simp_all add: processNewData_def Let_def 1 pushSegments_queue)
  have 4: "text \<noteq> [] \<and> full_transcript_text u = Some text \<and>
    lastProcessedIdRef s \<noteq> Some (id_t u) \<longrightarrow>
      queueRef (fst (processNewData Bridge w s u)) =
        queueRef s @
        nonEmptyLines
          (diarizeAndTranslate w text (if languageRef s = [] then ''English'' else languageRef s)) \<and>
      paragraphCountRef (fst (processNewData Bridge w s u)) = paragraphCountRef s"
    by (simp add: processNewData_def Let_def segmentText_nonEmptyLines)
  from 1 2 3 4 show ?thesis by blast
qed

theorem segmenter_lines_and_filler_witness:
  "segmentText sampleText = [''one'', ''two'', ''three'', ''four''] \<and>
   queueRef (fst (processNewData Part001 steadyWorld
       ((initial Natural ''English'')\<lparr>paragraphCountRef := 1\<rparr>)
       (update ''a'' (Some sampleText) ''1''))) =
     [''one'', ''two'', ''(clears throat)'', ''three'', ''four''] \<and>
   paragraphCountRef (fst (processNewData Part001 steadyWorld
       ((initial Natural ''English'')\<lparr>paragraphCountRef := 1\<rparr>)
       (update ''a'' (Some sampleText) ''1''))) = 5 \<and>
   queueRef (fst (processNewData Bridge steadyWorld
       ((initial Natural ''English'')\<lparr>paragraphCountRef := 1\<rparr>)
       (update ''a'' (Some sampleText) ''1''))) =
     [''Male 1: one'', ''two'', ''three'', ''four''] \<and>
   paragraphCountRef (fst (processNewData Bridge steadyWorld
       ((initial Natural ''English'')\<lparr>paragraphCountRef := 1\<rparr>)
       (update ''a'' (Some sampleText) ''1''))) = 1"
proof -
  have t: "sampleText \<noteq> []"
    by (simp add: sampleText_def)
  from segmenter_lines_and_filler[of sampleText "update ''a'' (Some sampleText) ''1''"
      "(initial Natural ''English'')\<lparr>paragraphCountRef := 1\<rparr>" steadyWorld] t
  show ?thesis
    by (simp add: nonEmptyLines_sampleText nonEmptyLines_labelled update_def initial_def)
qed

section \<open>Rounding\<close>

lemma binade_eq:
  "0 < x \<Longrightarrow> 2 powi e \<le> x \<Longrightarrow> x < 2 powi (e + 1) \<Longrightarrow> binade x = e"
proof (induction x arbitrary: e rule: binade.induct)
  case (1 x)
  show ?case
  proof (cases "2 \<le> x")
    case True
    have "2 powi (e - 1) \<le> x / 2" "x / 2 < 2 powi (e - 1 + 1)"
      using "1.prems" by (simp_all add: power_int_diff power_int_add)
    with "1.IH"(1)[of "e - 1"] True "1.prems"(1) have "binade (x / 2) = e - 1" by simp
    with True "1.prems"(1) show ?thesis by (subst binade.simps) simp
  next
    case False
    show ?thesis
    proof (cases "x < 1")
      case True
      have "2 powi (e + 1) \<le> 2 * x" "2 * x < 2 powi (e + 1 + 1)"
        using "1.prems" by (simp_all add: power_int_add)
      with "1.IH"(2)[of "e + 1"] True False "1.prems"(1) have "binade (2 * x) = e + 1" by simp
      with True False "1.prems"(1) show ?thesis by (subst binade.simps) simp
    next
      case ge: False
      have "e = 0"
      proof (rule ccontr)
        assume "e \<noteq> 0"
        then consider "e \<le> - 1" | "1 \<le> e" by linarith
        then show False
        proof cases
          case 1
          then have "(2::real) powi (e + 1) \<le> 2 powi 0"
            by (intro power_int_increasing) simp_all
          with "1.prems"(3) ge show False by simp
        next
          case 2
          then have "(2::real) powi 1 \<le> 2 powi e"
            by (intro power_int_increasing) simp_all
          with "1.prems"(2) False show False by simp
        qed
      qed
      with ge False "1.prems"(1) show ?thesis by (subst binade.simps) simp
    qed
  qed
qed

text \<open>The rounding of a number of which the binade is known.\<close>

lemma fl_binade:
  assumes "2 powi e \<le> \<bar>x\<bar>" and "\<bar>x\<bar> < 2 powi (e + 1)" and "- 1022 \<le> e"
  shows "fl x = of_int (rne (x / 2 powi (e - 52))) * 2 powi (e - 52)"
proof -
  have pos: "0 < \<bar>x\<bar>"
    using assms(1) by (smt (verit) zero_less_power_int)
  then have "x \<noteq> 0" by simp
  then show ?thesis
    using binade_eq[OF pos assms(1,2)] assms(3) by (simp add: fl_def Let_def max_def)
qed

lemma fl_0 [simp]: "fl 0 = 0"
  by (simp add: fl_def)

text \<open>The rounded number is within half the distance between neighbouring doubles.\<close>

lemma rne_error: "\<bar>of_int (rne y) - y\<bar> \<le> 1 / 2"
  by (auto simp: rne_def Let_def)

lemma fl_error:
  "\<bar>fl x - x\<bar> \<le> 2 powi (max (binade \<bar>x\<bar>) (- 1022) - 53)"
proof (cases "x = 0")
  case True
  then show ?thesis by (simp add: fl_def)
next
  case False
  define u :: real where "u = 2 powi (max (binade \<bar>x\<bar>) (- 1022) - 52)"
  have u: "0 < u" by (simp add: u_def)
  have h: "2 powi (max (binade \<bar>x\<bar>) (- 1022) - 53) = u / 2"
    unfolding u_def by (simp add: power_int_diff)
  have "fl x - x = (of_int (rne (x / u)) - x / u) * u"
    using False u by (simp add: fl_def Let_def u_def[symmetric] algebra_simps)
  then have "\<bar>fl x - x\<bar> = \<bar>of_int (rne (x / u)) - x / u\<bar> * u"
    using u by (simp add: abs_mult)
  also have "\<dots> \<le> 1 / 2 * u"
    using rne_error[of "x / u"] u by (intro mult_right_mono) simp_all
  finally show ?thesis unfolding h by simp
qed

lemma tenth_eq: "tenth = 3602879701896397 / 2 ^ 55"
  unfolding tenth_def
  by (subst fl_binade[where e = "- 4"]) (simp_all add: rne_def Let_def)

lemma fl_tenth: "fl tenth = tenth"
  unfolding tenth_eq
  by (subst fl_binade[where e = "- 4"]) (simp_all add: rne_def Let_def)

text \<open>\<open>0.2 + 0.1\<close> is \<open>0.30000000000000004\<close>, and \<open>2.1 + 0.1\<close> is \<open>2.2\<close>.\<close>

lemma fl_sum_fifth: "fl (3602879701896397 / 2 ^ 54 + tenth) = 5404319552844596 / 2 ^ 54"
  unfolding tenth_eq
  by (subst fl_binade[where e = "- 2"]) (simp_all add: rne_def Let_def)

lemma fl_half: "fl (1 / 2) = 1 / 2"
  by (subst fl_binade[where e = "- 1"]) (simp_all add: rne_def Let_def)

lemma fl_2100: "fl (21 / 10) = 4728779608739021 / 2 ^ 51"
  by (subst fl_binade[where e = "1"]) (simp_all add: rne_def Let_def)

lemma fl_2600: "fl (13 / 5) = 5854679515581645 / 2 ^ 51"
  by (subst fl_binade[where e = "1"]) (simp_all add: rne_def Let_def)

lemma fl_sum_2100: "fl (4728779608739021 / 2 ^ 51 + tenth) = 2476979795053773 / 2 ^ 50"
  unfolding tenth_eq
  by (subst fl_binade[where e = "1"]) (simp_all add: rne_def Let_def)

section \<open>The two waits\<close>

lemma awaitArrival_from:
  assumes "i \<le> 150" and "awaitArrival w pre ws (ws + 100 * i) = (a, t')"
  shows "\<exists>k. i \<le> k \<and> k \<le> 150 \<and> t' = ws + 100 * k \<and>
           (\<forall>j. i \<le> j \<and> j < k \<longrightarrow> \<not> arrived w pre (ws + 100 * j)) \<and>
           (a \<longrightarrow> k < 150 \<and> arrived w pre t') \<and> (\<not> a \<longrightarrow> k = 150)"
  using assms
proof (induction "150 - i" arbitrary: i)
  case 0
  then have i: "i = 150" by simp
  from 0(3) have "a = False \<and> t' = ws + 100 * 150"
    by (subst (asm) awaitArrival.simps) (simp add: i)
  then show ?case using i by auto
next
  case (Suc n)
  then have lt: "i < 150" by simp
  show ?case
  proof (cases "arrived w pre (ws + 100 * i)")
    case True
    from Suc(4) lt True have "a = True \<and> t' = ws + 100 * i"
      by (subst (asm) awaitArrival.simps) simp
    with lt True show ?thesis by auto
  next
    case False
    from Suc(4) lt False have "awaitArrival w pre ws (ws + 100 * Suc i) = (a, t')"
      by (subst (asm) awaitArrival.simps) (simp add: add_ac)
    moreover have "n = 150 - Suc i" "Suc i \<le> 150" using Suc(2) lt by simp_all
    ultimately obtain k where k: "Suc i \<le> k" "k \<le> 150" "t' = ws + 100 * k"
      "\<forall>j. Suc i \<le> j \<and> j < k \<longrightarrow> \<not> arrived w pre (ws + 100 * j)"
      "a \<longrightarrow> k < 150 \<and> arrived w pre t'" "\<not> a \<longrightarrow> k = 150"
      using Suc(1)[of "Suc i"] by blast
    have "\<forall>j. i \<le> j \<and> j < k \<longrightarrow> \<not> arrived w pre (ws + 100 * j)"
    proof (intro allI impI)
      fix j assume "i \<le> j \<and> j < k"
      then show "\<not> arrived w pre (ws + 100 * j)"
        using False k(4) by (cases "j = i") auto
    qed
    with k show ?thesis by (intro exI[of _ k]) auto
  qed
qed

lemma pipeliningWait_Some:
  "duration (streamer_at w (t + 200 * k)) < 3 \<Longrightarrow>
   (\<forall>j<k. \<not> duration (streamer_at w (t + 200 * j)) < 3) \<Longrightarrow>
   pipeliningWait w t = Some (t + 200 * k)"
proof (induction k arbitrary: t)
  case 0
  then show ?case by (subst pipeliningWait.simps) simp
next
  case (Suc k)
  from Suc(3) have n: "\<not> duration (streamer_at w t) < 3" by (auto dest: spec[of _ 0])
  have "pipeliningWait w (t + 200) = Some (t + 200 + 200 * k)"
  proof (rule Suc.IH)
    show "duration (streamer_at w (t + 200 + 200 * k)) < 3"
      using Suc(2) by (simp add: algebra_simps)
    show "\<forall>j<k. \<not> duration (streamer_at w (t + 200 + 200 * j)) < 3"
    proof (intro allI impI)
      fix j assume "j < k"
      with Suc(3) have "\<not> duration (streamer_at w (t + 200 * Suc j)) < 3" by auto
      then show "\<not> duration (streamer_at w (t + 200 + 200 * j)) < 3"
        by (simp add: algebra_simps)
    qed
  qed
  with n show ?case by (subst pipeliningWait.simps) (simp add: algebra_simps)
qed

lemma pipeliningWait_sound:
  assumes "pipeliningWait w t = Some t'"
  shows "\<exists>k. t' = t + 200 * k \<and> duration (streamer_at w t') < 3 \<and>
       (\<forall>j<k. \<not> duration (streamer_at w (t + 200 * j)) < 3)"
proof -
  let ?P = "\<lambda>v a y. \<exists>k. y = a + 200 * k \<and> duration (streamer_at v y) < 3 \<and>
       (\<forall>j<k. \<not> duration (streamer_at v (a + 200 * j)) < 3)"
  have "?P w t t'"
  proof (rule pipeliningWait.raw_induct[where P = ?P, OF _ assms])
    fix f :: "world \<Rightarrow> nat \<Rightarrow> nat option" and v a y
    assume IH: "\<And>v a y. f v a = Some y \<Longrightarrow> ?P v a y"
      and eq: "(if duration (streamer_at v a) < 3 then Some a else f v (a + 200)) = Some y"
    show "?P v a y"
    proof (cases "duration (streamer_at v a) < 3")
      case True
      with eq have "y = a" by simp
      with True have "y = a + 200 * 0 \<and> duration (streamer_at v y) < 3 \<and>
         (\<forall>j<0. \<not> duration (streamer_at v (a + 200 * j)) < 3)" by simp
      then show ?thesis by (rule exI)
    next
      case False
      with eq have "f v (a + 200) = Some y" by simp
      from IH[OF this] obtain k where k: "y = a + 200 + 200 * k"
        "duration (streamer_at v y) < 3"
        "\<forall>j<k. \<not> duration (streamer_at v (a + 200 + 200 * j)) < 3" by blast
      have "\<forall>j<Suc k. \<not> duration (streamer_at v (a + 200 * j)) < 3"
      proof (intro allI impI)
        fix j assume j: "j < Suc k"
        show "\<not> duration (streamer_at v (a + 200 * j)) < 3"
        proof (cases j)
          case 0
          with False show ?thesis by simp
        next
          case (Suc j')
          with j k(3) have "\<not> duration (streamer_at v (a + 200 + 200 * j')) < 3" by simp
          with Suc show ?thesis by (simp add: algebra_simps)
        qed
      qed
      with k have "y = a + 200 * Suc k \<and> duration (streamer_at v y) < 3 \<and>
         (\<forall>j<Suc k. \<not> duration (streamer_at v (a + 200 * j)) < 3)"
        by (simp add: algebra_simps)
      then show ?thesis by (rule exI)
    qed
  qed
  then show ?thesis .
qed

lemma pipeliningWait_None_iff:
  "pipeliningWait w t = None \<longleftrightarrow> (\<forall>k. \<not> duration (streamer_at w (t + 200 * k)) < 3)"
proof
  assume n: "pipeliningWait w t = None"
  show "\<forall>k. \<not> duration (streamer_at w (t + 200 * k)) < 3"
  proof (rule ccontr)
    assume "\<not> (\<forall>k. \<not> duration (streamer_at w (t + 200 * k)) < 3)"
    then have ex: "\<exists>k. duration (streamer_at w (t + 200 * k)) < 3" by simp
    define k where "k = (LEAST k. duration (streamer_at w (t + 200 * k)) < 3)"
    have "duration (streamer_at w (t + 200 * k)) < 3"
      unfolding k_def using ex by (rule LeastI_ex)
    moreover have "\<forall>j<k. \<not> duration (streamer_at w (t + 200 * j)) < 3"
      unfolding k_def using not_less_Least by blast
    ultimately have "pipeliningWait w t = Some (t + 200 * k)" by (rule pipeliningWait_Some)
    with n show False by simp
  qed
next
  assume a: "\<forall>k. \<not> duration (streamer_at w (t + 200 * k)) < 3"
  show "pipeliningWait w t = None"
  proof (cases "pipeliningWait w t")
    case None
    then show ?thesis .
  next
    case (Some t')
    from pipeliningWait_sound[OF this] a show ?thesis by auto
  qed
qed


section \<open>The loop body\<close>

lemma synthesized_append [simp]: "synthesized (xs @ ys) = synthesized xs @ synthesized ys"
  by (induction xs rule: synthesized.induct) simp_all

lemma sent_append [simp]: "sent (xs @ ys) = sent xs @ sent ys"
  by (induction xs rule: sent.induct) simp_all

lemma submit_fields [simp]:
  "queueRef (submit rv w x s) = queueRef s"
  "isProcessingRef (submit rv w x s) = isProcessingRef s"
  "voiceStyleRef (submit rv w x s) = voiceStyleRef s"
  "lastProcessedIdRef (submit rv w x s) = lastProcessedIdRef s"
  "paragraphCountRef (submit rv w x s) = paragraphCountRef s"
  "now (submit rv w x s) = now s + synth_latency w (now s) x"
  by (simp_all add: submit_def Let_def)

lemma submit_trace:
  "trace (submit rv w x s) =
     trace s @ Synthesize (now s) x #
       (if synth_ok w (now s) x then []
        else [Send (now s + synth_latency w (now s) x) (fallbackText rv x)])"
  by (simp add: submit_def Let_def)

lemma waits_Some:
  assumes "waits w pre s = Some s'"
  shows "queueRef s' = queueRef s" "isProcessingRef s' = isProcessingRef s"
    "voiceStyleRef s' = voiceStyleRef s" "lastProcessedIdRef s' = lastProcessedIdRef s"
    "paragraphCountRef s' = paragraphCountRef s"
    "trace s' = trace s @
       (if fst (awaitArrival w pre (now s) (now s)) then []
        else [Warn (snd (awaitArrival w pre (now s) (now s)))])"
    "pipeliningWait w (snd (awaitArrival w pre (now s) (now s))) = Some (now s')"
  using assms by (auto simp: waits_def Let_def)

lemma waits_total:
  assumes "\<forall>t. \<exists>k. duration (streamer_at w (t + 200 * k)) < 3"
  shows "\<exists>s'. waits w pre s = Some s'"
proof -
  have "pipeliningWait w (snd (awaitArrival w pre (now s) (now s))) \<noteq> None"
    using assms by (simp add: pipeliningWait_None_iff)
  then show ?thesis by (auto simp: waits_def Let_def)
qed

lemma iteration_Nil:
  "queueRef s = [] \<Longrightarrow> iteration rv w s = Some (Exit Completed s)"
  by (simp add: iteration_def)

lemma iteration_disconnected:
  "queueRef s = rawText # rest \<Longrightarrow> \<not> connected_at w (now s) \<Longrightarrow>
   iteration rv w s = Some (Exit Disconnected (s\<lparr>isProcessingRef := False\<rparr>))"
  by (simp add: iteration_def)

lemma iteration_blank:
  "queueRef s = rawText # rest \<Longrightarrow> connected_at w (now s) \<Longrightarrow>
   blank (scriptedTextOf rv (voiceStyleRef s) rawText) \<Longrightarrow>
   iteration rv w s = Some (Continue (s\<lparr>queueRef := rest\<rparr>))"
  by (simp add: iteration_def blank_def Let_def)

lemma iteration_thrown:
  "queueRef s = rawText # rest \<Longrightarrow> connected_at w (now s) \<Longrightarrow>
   \<not> blank (scriptedTextOf rv (voiceStyleRef s) rawText) \<Longrightarrow>
   submitThrows rv w (scriptedTextOf rv (voiceStyleRef s) rawText) s \<Longrightarrow>
   iteration rv w s =
     Some (Exit Thrown (submit rv w (scriptedTextOf rv (voiceStyleRef s) rawText) s))"
  by (simp add: iteration_def blank_def Let_def)

lemma iteration_submitted:
  "queueRef s = rawText # rest \<Longrightarrow> connected_at w (now s) \<Longrightarrow>
   \<not> blank (scriptedTextOf rv (voiceStyleRef s) rawText) \<Longrightarrow>
   \<not> submitThrows rv w (scriptedTextOf rv (voiceStyleRef s) rawText) s \<Longrightarrow>
   iteration rv w s =
     map_option Continue
       (waits w (streamer_at w (now s))
          ((submit rv w (scriptedTextOf rv (voiceStyleRef s) rawText) s)\<lparr>queueRef := rest\<rparr>))"
  by (simp add: iteration_def blank_def Let_def)

lemma processQueueLoop_unfold:
  "processQueueLoop rv w s =
     (if isProcessingRef s then Some s
      else
        (case queueWhile rv w (s\<lparr>isProcessingRef := True\<rparr>) of
           None \<Rightarrow> None
         | Some (e, s') \<Rightarrow>
             let s'' = (if e = Thrown then s'\<lparr>trace := trace s' @ [LogError (now s')]\<rparr> else s')
             in Some (s''\<lparr>isProcessingRef := False\<rparr>)))"
  by (simp add: processQueueLoop_def loopCall_def Let_def)

lemma suspensions_unfold:
  "suspensions rv w s =
     (if isProcessingRef s then [] else allPauses rv w (s\<lparr>isProcessingRef := True\<rparr>))"
  by (simp add: suspensions_def loopCall_def Let_def)

lemma queueWhile_Exit:
  "iteration rv w s = Some (Exit e s') \<Longrightarrow> queueWhile rv w s = Some (e, s')"
  by (subst queueWhile.simps) simp

lemma queueWhile_Continue:
  "iteration rv w s = Some (Continue s') \<Longrightarrow> queueWhile rv w s = queueWhile rv w s'"
  by (subst queueWhile.simps) simp

lemma queueWhile_None:
  "iteration rv w s = None \<Longrightarrow> queueWhile rv w s = None"
  by (subst queueWhile.simps) simp

text \<open>A pass through the loop body in which the audio is there at the first poll.\<close>

lemma awaitArrival_at_once:
  "arrived w pre t \<Longrightarrow> awaitArrival w pre t t = (True, t)"
  by (subst awaitArrival.simps) simp

lemma iteration_arrived:
  assumes "queueRef s = x # rest" and "connected_at w (now s)"
    and "\<not> blank (scriptedTextOf rv (voiceStyleRef s) x)"
    and "synth_ok w (now s) (scriptedTextOf rv (voiceStyleRef s) x)"
    and "arrived w (streamer_at w (now s))
           (now s + synth_latency w (now s) (scriptedTextOf rv (voiceStyleRef s) x))"
    and "pipeliningWait w
           (now s + synth_latency w (now s) (scriptedTextOf rv (voiceStyleRef s) x)) = Some t"
  shows "iteration rv w s =
           Some (Continue (s\<lparr>queueRef := rest, now := t,
             trace := trace s @ [Synthesize (now s) (scriptedTextOf rv (voiceStyleRef s) x)]\<rparr>))"
proof -
  from assms(4) have nt: "\<not> submitThrows rv w (scriptedTextOf rv (voiceStyleRef s) x) s"
    by (simp add: submitThrows_def)
  show ?thesis
    unfolding iteration_submitted[OF assms(1,2,3) nt]
    using assms(4,5,6)
    by (simp add: waits_def Let_def submit_def awaitArrival_at_once)
qed

section \<open>Evaluation of the concrete collaborators\<close>

lemma steadyWorld_simps [simp]:
  "connected_at steadyWorld t" "streamer_at steadyWorld t = \<lparr>endOfQueueTime = fl (real t / 1000), duration = 0\<rparr>"
  "synth_ok steadyWorld t x" "synth_latency steadyWorld t x = 500"
  "\<not> send_throws steadyWorld t x" "flash_text steadyWorld y l = None"
  by (simp_all add: steadyWorld_def)

lemma stuckWorld_simps [simp]:
  "connected_at stuckWorld t" "streamer_at stuckWorld t = \<lparr>endOfQueueTime = fl (real t / 1000), duration = 5\<rparr>"
  "synth_ok stuckWorld t x" "synth_latency stuckWorld t x = 500"
  "\<not> send_throws stuckWorld t x"
  by (simp_all add: stuckWorld_def)

lemma silentWorld_simps [simp]:
  "connected_at silentWorld t" "streamer_at silentWorld t = \<lparr>endOfQueueTime = 0, duration = 0\<rparr>"
  "synth_ok silentWorld t x" "synth_latency silentWorld t x = 500"
  "\<not> send_throws silentWorld t x"
  by (simp_all add: silentWorld_def)

lemma queued_simps [simp]:
  "queueRef (queued style q) = q" "\<not> isProcessingRef (queued style q)"
  "voiceStyleRef (queued style q) = style" "now (queued style q) = 0"
  "trace (queued style q) = []"
  by (simp_all add: queued_def initial_def)

lemma failingFor_simps [simp]:
  "connected_at (failingFor b) t"
  "streamer_at (failingFor b) t = \<lparr>endOfQueueTime = fl (real t / 1000), duration = 0\<rparr>"
  "synth_ok (failingFor b) t x = (x \<noteq> b)" "synth_latency (failingFor b) t x = 500"
  "\<not> send_throws (failingFor b) t x"
  by (simp_all add: failingFor_def)

lemma throwingWorld_simps [simp]:
  "connected_at throwingWorld t"
  "streamer_at throwingWorld t = \<lparr>endOfQueueTime = fl (real t / 1000), duration = 0\<rparr>"
  "\<not> synth_ok throwingWorld t x" "synth_latency throwingWorld t x = 500"
  "send_throws throwingWorld t x"
  by (simp_all add: throwingWorld_def)

lemma offlineWorld_simps [simp]:
  "\<not> connected_at offlineWorld t"
  "streamer_at offlineWorld t = \<lparr>endOfQueueTime = fl (real t / 1000), duration = 0\<rparr>"
  by (simp_all add: offlineWorld_def)

lemma flappingWorld_simps [simp]:
  "connected_at flappingWorld t = (t < 100 \<or> 2000 \<le> t)"
  "streamer_at flappingWorld t =
     \<lparr>endOfQueueTime = fl (real t / 1000), duration = (if t < 2000 then 5 else 0)\<rparr>"
  "synth_ok flappingWorld t x" "synth_latency flappingWorld t x = 500"
  "\<not> send_throws flappingWorld t x"
  by (simp_all add: flappingWorld_def)

lemma roundingWorld_simps [simp]:
  "connected_at roundingWorld t"
  "streamer_at roundingWorld t =
     \<lparr>endOfQueueTime =
        (if t < 500 then 3602879701896397 / 2 ^ 54 else 5404319552844596 / 2 ^ 54),
      duration = 0\<rparr>"
  "synth_ok roundingWorld t x" "synth_latency roundingWorld t x = 500"
  "\<not> send_throws roundingWorld t x"
  by (simp_all add: roundingWorld_def)

lemma arrived_eval:
  assumes "endOfQueueTime (streamer_at w t) = c" and "endOfQueueTime pre = b"
    and "fl (b + tenth) = d"
  shows "arrived w pre t \<longleftrightarrow> d < c"
  using assms by (simp add: arrived_def)

lemma arrived_silentWorld: "\<not> arrived silentWorld (streamer_at silentWorld 0) t"
proof -
  have "arrived silentWorld (streamer_at silentWorld 0) t \<longleftrightarrow> tenth < 0"
    by (rule arrived_eval[where b = 0]) (simp_all add: fl_tenth)
  then show ?thesis by (simp add: tenth_eq)
qed

lemma arrived_steadyWorld: "arrived steadyWorld (streamer_at steadyWorld 0) 500"
proof -
  have "arrived steadyWorld (streamer_at steadyWorld 0) 500 \<longleftrightarrow> tenth < 1 / 2"
    by (rule arrived_eval[where b = 0]) (simp_all add: fl_tenth fl_half)
  then show ?thesis by (simp add: tenth_eq)
qed

lemma arrived_flappingWorld:
  "arrived flappingWorld (streamer_at flappingWorld 0) 500"
  "arrived flappingWorld (streamer_at flappingWorld 2100) 2600"
proof -
  have "arrived flappingWorld (streamer_at flappingWorld 0) 500 \<longleftrightarrow> tenth < 1 / 2"
    by (rule arrived_eval[where b = 0]) (simp_all add: fl_tenth fl_half)
  then show "arrived flappingWorld (streamer_at flappingWorld 0) 500"
    by (simp add: tenth_eq)
  have "arrived flappingWorld (streamer_at flappingWorld 2100) 2600 \<longleftrightarrow>
          (2476979795053773 / 2 ^ 50 :: real) < 5854679515581645 / 2 ^ 51"
  proof (rule arrived_eval[where b = "4728779608739021 / 2 ^ 51"])
    show "endOfQueueTime (streamer_at flappingWorld 2600) = 5854679515581645 / 2 ^ 51"
      by (simp add: fl_2600)
    show "endOfQueueTime (streamer_at flappingWorld 2100) = 4728779608739021 / 2 ^ 51"
      by (simp add: fl_2100)
    show "fl (4728779608739021 / 2 ^ 51 + tenth) = 2476979795053773 / 2 ^ 50"
      by (rule fl_sum_2100)
  qed
  then show "arrived flappingWorld (streamer_at flappingWorld 2100) 2600"
    by simp
qed

text \<open>
  In \<open>roundingWorld\<close> the test fails at every poll: the sum of the snapshot and 0.1 is
  rounded up to the very number that the buffer reports.
\<close>

lemma arrived_roundingWorld:
  "500 \<le> t \<Longrightarrow> \<not> arrived roundingWorld (streamer_at roundingWorld 0) t"
proof -
  assume t: "500 \<le> t"
  have "arrived roundingWorld (streamer_at roundingWorld 0) t \<longleftrightarrow>
          (5404319552844596 / 2 ^ 54 :: real) < 5404319552844596 / 2 ^ 54"
  proof (rule arrived_eval[where b = "3602879701896397 / 2 ^ 54"])
    show "endOfQueueTime (streamer_at roundingWorld t) = 5404319552844596 / 2 ^ 54"
      using t by simp
    show "endOfQueueTime (streamer_at roundingWorld 0) = 3602879701896397 / 2 ^ 54"
      by simp
    show "fl (3602879701896397 / 2 ^ 54 + tenth) = 5404319552844596 / 2 ^ 54"
      by (rule fl_sum_fifth)
  qed
  then show ?thesis by simp
qed

section \<open>Bounds of the waits\<close>

lemma trim_A: "trim ''A'' = ''A''"
  by (simp add: trim_def isWhiteSpace_def)

text \<open>
  C2, as the claim states it, fails: with a buffer that always holds five seconds of audio
  the pipelining wait never ends, and the call of \<open>processQueueLoop\<close> never returns.
\<close>

theorem pipelining_wait_never_ends_counterexample:
  "processQueueLoop Bridge stuckWorld (queued Natural [''A'']) = None"
proof -
  let ?s = "(queued Natural [''A''])\<lparr>isProcessingRef := True\<rparr>"
  have w: "\<And>pre s. waits stuckWorld pre s = None"
    by (simp add: waits_def Let_def pipeliningWait_None_iff)
  have "iteration Bridge stuckWorld ?s = None"
    by (subst iteration_submitted[where rawText = "''A''" and rest = "[]"])
       (simp_all add: scriptedTextOf_def blank_def trim_A submitThrows_def w)
  then have "queueWhile Bridge stuckWorld ?s = None" by (rule queueWhile_None)
  then show ?thesis by (simp add: processQueueLoop_unfold)
qed

text \<open>
  C2, amended: the arrival wait ends within 15 seconds. The pipelining wait has no bound
  in time: polling every 200 ms, it ends at the first poll that finds the remaining
  duration below 3.0 seconds, and it ends if and only if there is such a poll; when the
  remaining duration never drops below 3.0 seconds, the two waits never end.
\<close>

theorem waits_bounds:
  "(awaitArrival w pre t t = (a, t') \<longrightarrow> t \<le> t' \<and> t' \<le> t + 15000) \<and>
   ((\<exists>y. pipeliningWait w t = Some y) = (\<exists>k. duration (streamer_at w (t + 200 * k)) < 3)) \<and>
   (pipeliningWait w t = Some y \<longrightarrow>
      (\<exists>k. y = t + 200 * k \<and> duration (streamer_at w y) < 3 \<and>
           (\<forall>j<k. \<not> duration (streamer_at w (t + 200 * j)) < 3))) \<and>
   ((\<forall>x. \<not> duration (streamer_at w x) < 3) \<longrightarrow> waits w pre s = None)"
proof -
  have 1: "awaitArrival w pre t t = (a, t') \<longrightarrow> t \<le> t' \<and> t' \<le> t + 15000"
  proof
    assume "awaitArrival w pre t t = (a, t')"
    then have "awaitArrival w pre t (t + 100 * 0) = (a, t')" by simp
    from awaitArrival_from[OF _ this] obtain k where "k \<le> 150" "t' = t + 100 * k"
      by auto
    then show "t \<le> t' \<and> t' \<le> t + 15000" by simp
  qed
  have 2: "(\<exists>y. pipeliningWait w t = Some y) = (\<exists>k. duration (streamer_at w (t + 200 * k)) < 3)"
    using pipeliningWait_None_iff[of w t] by auto
  have 3: "pipeliningWait w t = Some y \<longrightarrow>
      (\<exists>k. y = t + 200 * k \<and> duration (streamer_at w y) < 3 \<and>
           (\<forall>j<k. \<not> duration (streamer_at w (t + 200 * j)) < 3))"
    using pipeliningWait_sound[of w t y] by blast
  have 4: "(\<forall>x. \<not> duration (streamer_at w x) < 3) \<longrightarrow> waits w pre s = None"
    by (simp add: waits_def Let_def pipeliningWait_None_iff)
  from 1 2 3 4 show ?thesis by blast
qed

theorem waits_bounds_witness:
  "(\<exists>y. pipeliningWait steadyWorld 700 = Some y) \<and>
   pipeliningWait stuckWorld 700 = None \<and>
   waits stuckWorld (streamer_at stuckWorld 0) (queued Natural []) = None"
  using waits_bounds[of steadyWorld "streamer_at steadyWorld 0" 700 True 700 700 "queued Natural []"]
    waits_bounds[of stuckWorld "streamer_at stuckWorld 0" 700 True 700 700 "queued Natural []"]
  by simp

section \<open>The arrival wait\<close>

lemma awaitArrival_roundingWorld:
  "awaitArrival roundingWorld (streamer_at roundingWorld 0) 500 500 = (False, 15500)"
proof -
  obtain a t' where r: "awaitArrival roundingWorld (streamer_at roundingWorld 0) 500 500 = (a, t')"
    by (cases "awaitArrival roundingWorld (streamer_at roundingWorld 0) 500 500")
  then have "awaitArrival roundingWorld (streamer_at roundingWorld 0) 500 (500 + 100 * 0) = (a, t')"
    by simp
  from awaitArrival_from[OF _ this] obtain k where k: "t' = 500 + 100 * k"
    "a \<longrightarrow> k < 150 \<and> arrived roundingWorld (streamer_at roundingWorld 0) t'" "\<not> a \<longrightarrow> k = 150"
    by auto
  from k(1) have "500 \<le> t'" by simp
  then have "\<not> arrived roundingWorld (streamer_at roundingWorld 0) t'"
    by (rule arrived_roundingWorld)
  with k have "a = False \<and> t' = 15500" by auto
  with r show ?thesis by simp
qed

text \<open>
  C4, as the claim states it, fails: the test compares with the sum as the program computes
  it, which is rounded. Here the snapshot is 0.2 s, and from the moment the synthesis call
  resolves the buffer ends at 0.30000000000000004 s, more than 0.1 s above the snapshot;
  but \<open>0.2 + 0.1\<close> evaluates to that same number, the test fails at every poll, and the
  wait ends after 15 s with the warning.
\<close>

theorem arrival_missed_by_rounding_counterexample:
  "endOfQueueTime (streamer_at roundingWorld 500) >
     endOfQueueTime (streamer_at roundingWorld 0) + 1 / 10 \<and>
   awaitArrival roundingWorld (streamer_at roundingWorld 0) 500 500 = (False, 15500) \<and>
   tracedBy (processQueueLoop Bridge roundingWorld (queued Natural [''A''])) =
     Some [Synthesize 0 ''A'', Warn 15500]"
proof -
  let ?s0 = "(queued Natural [''A''])\<lparr>isProcessingRef := True\<rparr>"
  let ?s1 = "?s0\<lparr>queueRef := [], now := 15500, trace := [Synthesize 0 ''A'', Warn 15500]\<rparr>"
  have 1: "endOfQueueTime (streamer_at roundingWorld 500) >
     endOfQueueTime (streamer_at roundingWorld 0) + 1 / 10"
    by simp
  have p: "pipeliningWait roundingWorld 15500 = Some 15500"
    using pipeliningWait_Some[of roundingWorld 15500 0] by simp
  have "iteration Bridge roundingWorld ?s0 = Some (Continue ?s1)"
    by (subst iteration_submitted[where rawText = "''A''" and rest = "[]"])
       (simp_all add: scriptedTextOf_def blank_def trim_A submitThrows_def waits_def Let_def
          submit_def awaitArrival_roundingWorld[simplified] p)
  moreover have "iteration Bridge roundingWorld ?s1 = Some (Exit Completed ?s1)"
    by (simp add: iteration_Nil)
  ultimately have "queueWhile Bridge roundingWorld ?s0 = Some (Completed, ?s1)"
    by (simp only: queueWhile_Continue queueWhile_Exit)
  then have 3: "tracedBy (processQueueLoop Bridge roundingWorld (queued Natural [''A''])) =
     Some [Synthesize 0 ''A'', Warn 15500]"
    by (simp add: processQueueLoop_unfold tracedBy_def)
  from 1 awaitArrival_roundingWorld 3 show ?thesis by (intro conjI)
qed

text \<open>
  C4, amended: the snapshot that the arrival wait compares with is the one taken at the
  start of the iteration, before the synthesis call is made; the wait polls every 100 ms
  from the moment the call has resolved, ends at the first poll that finds \<open>endOfQueueTime\<close>
  above the sum of the snapshot and 0.1 as the program computes it (the double nearest to
  the exact sum of the snapshot and the double 0.1, within half the distance between
  neighbouring doubles of it), and otherwise ends after 15 s (150 polls); and whether
  the audio arrived or not, the loop goes on to the pipelining wait, leaving a warning in
  the second case.
\<close>

theorem arrival_wait:
  "(awaitArrival w pre t t = (a, t') \<longrightarrow>
      (\<exists>k\<le>150. t' = t + 100 * k \<and> (\<forall>j<k. \<not> arrived w pre (t + 100 * j)) \<and>
                (a \<longrightarrow> k < 150 \<and> arrived w pre t') \<and> (\<not> a \<longrightarrow> k = 150))) \<and>
   (queueRef s = rawText # rest \<and> connected_at w (now s) \<and>
    \<not> blank (scriptedTextOf rv (voiceStyleRef s) rawText) \<and>
    \<not> submitThrows rv w (scriptedTextOf rv (voiceStyleRef s) rawText) s \<longrightarrow>
      iteration rv w s =
        map_option Continue
          (waits w (streamer_at w (now s))
             ((submit rv w (scriptedTextOf rv (voiceStyleRef s) rawText) s)
                \<lparr>queueRef := rest\<rparr>))) \<and>
   ((\<exists>k. duration (streamer_at w (snd (awaitArrival w pre (now s) (now s)) + 200 * k)) < 3) \<longrightarrow>
      (\<exists>s'. waits w pre s = Some s' \<and> queueRef s' = queueRef s \<and>
            trace s' = trace s @
              (if fst (awaitArrival w pre (now s) (now s)) then []
               else [Warn (snd (awaitArrival w pre (now s) (now s)))]))) \<and>
   (arrived w pre t \<longleftrightarrow>
      fl (endOfQueueTime pre + tenth) < endOfQueueTime (streamer_at w t)) \<and>
   tenth = 3602879701896397 / 2 ^ 55 \<and>
   \<bar>fl x - x\<bar> \<le> 2 powi (max (binade \<bar>x\<bar>) (- 1022) - 53)"
proof -
  have 1: "awaitArrival w pre t t = (a, t') \<longrightarrow>
      (\<exists>k\<le>150. t' = t + 100 * k \<and> (\<forall>j<k. \<not> arrived w pre (t + 100 * j)) \<and>
                (a \<longrightarrow> k < 150 \<and> arrived w pre t') \<and> (\<not> a \<longrightarrow> k = 150))"
  proof
    assume "awaitArrival w pre t t = (a, t')"
    then have "awaitArrival w pre t (t + 100 * 0) = (a, t')" by simp
    from awaitArrival_from[OF _ this]
    show "\<exists>k\<le>150. t' = t + 100 * k \<and> (\<forall>j<k. \<not> arrived w pre (t + 100 * j)) \<and>
                (a \<longrightarrow> k < 150 \<and> arrived w pre t') \<and> (\<not> a \<longrightarrow> k = 150)"
      by auto
  qed
  have 2: "queueRef s = rawText # rest \<and> connected_at w (now s) \<and>
    \<not> blank (scriptedTextOf rv (voiceStyleRef s) rawText) \<and>
    \<not> submitThrows rv w (scriptedTextOf rv (voiceStyleRef s) rawText) s \<longrightarrow>
      iteration rv w s =
        map_option Continue
          (waits w (streamer_at w (now s))
             ((submit rv w (scriptedTextOf rv (voiceStyleRef s) rawText) s)
                \<lparr>queueRef := rest\<rparr>))"
    using iteration_submitted[of s rawText rest w rv] by blast
  have 3: "(\<exists>k. duration (streamer_at w (snd (awaitArrival w pre (now s) (now s)) + 200 * k)) < 3) \<longrightarrow>
      (\<exists>s'. waits w pre s = Some s' \<and> queueRef s' = queueRef s \<and>
            trace s' = trace s @
              (if fst (awaitArrival w pre (now s) (now s)) then []
               else [Warn (snd (awaitArrival w pre (now s) (now s)))]))"
  proof
    assume "\<exists>k. duration (streamer_at w (snd (awaitArrival w pre (now s) (now s)) + 200 * k)) < 3"
    then have "pipeliningWait w (snd (awaitArrival w pre (now s) (now s))) \<noteq> None"
      by (simp add: pipeliningWait_None_iff)
    then obtain s' where s': "waits w pre s = Some s'"
      by (auto simp: waits_def Let_def)
    from waits_Some(1,6)[OF s'] s'
    show "\<exists>s'. waits w pre s = Some s' \<and> queueRef s' = queueRef s \<and>
            trace s' = trace s @
              (if fst (awaitArrival w pre (now s) (now s)) then []
               else [Warn (snd (awaitArrival w pre (now s) (now s)))])"
      by blast
  qed
  have 4: "arrived w pre t \<longleftrightarrow>
      fl (endOfQueueTime pre + tenth) < endOfQueueTime (streamer_at w t)"
    by (simp add: arrived_def)
  from 1 2 3 4 tenth_eq fl_error show ?thesis by (intro conjI)
qed

theorem arrival_wait_witness:
  "awaitArrival silentWorld (streamer_at silentWorld 0) 500 500 = (False, 15500) \<and>
   awaitArrival steadyWorld (streamer_at steadyWorld 0) 500 500 = (True, 500)"
proof -
  obtain a t' where r: "awaitArrival silentWorld (streamer_at silentWorld 0) 500 500 = (a, t')"
    by (cases "awaitArrival silentWorld (streamer_at silentWorld 0) 500 500")
  have n: "\<And>x. \<not> arrived silentWorld (streamer_at silentWorld 0) x"
    by (rule arrived_silentWorld)
  from arrival_wait[of silentWorld "streamer_at silentWorld 0" 500 a t', THEN conjunct1] r n
  have "a = False \<and> t' = 15500" by auto
  with r have 1: "awaitArrival silentWorld (streamer_at silentWorld 0) 500 500 = (False, 15500)"
    by simp
  obtain b u where q: "awaitArrival steadyWorld (streamer_at steadyWorld 0) 500 500 = (b, u)"
    by (cases "awaitArrival steadyWorld (streamer_at steadyWorld 0) 500 500")
  have y: "arrived steadyWorld (streamer_at steadyWorld 0) 500"
    by (rule arrived_steadyWorld)
  from arrival_wait[of steadyWorld "streamer_at steadyWorld 0" 500 b u, THEN conjunct1] q
  obtain k where k: "k \<le> 150" "u = 500 + 100 * k"
    "\<forall>j<k. \<not> arrived steadyWorld (streamer_at steadyWorld 0) (500 + 100 * j)"
    "b \<longrightarrow> k < 150 \<and> arrived steadyWorld (streamer_at steadyWorld 0) u" "\<not> b \<longrightarrow> k = 150"
    by blast
  from k(3) y have "k = 0" by (cases k) auto
  with k have "b = True \<and> u = 500" by auto
  with q 1 show ?thesis by simp
qed

section \<open>Runs of the loop\<close>

lemma iteration_cases:
  assumes "iteration rv w s = Some r"
  obtains
    (completed) "queueRef s = []" "r = Exit Completed s"
  | (disconnected) x rest where "queueRef s = x # rest" "\<not> connected_at w (now s)"
      "r = Exit Disconnected (s\<lparr>isProcessingRef := False\<rparr>)"
  | (skipped) x rest where "queueRef s = x # rest" "connected_at w (now s)"
      "blank (scriptedTextOf rv (voiceStyleRef s) x)" "r = Continue (s\<lparr>queueRef := rest\<rparr>)"
  | (thrown) x rest where "queueRef s = x # rest" "connected_at w (now s)"
      "\<not> blank (scriptedTextOf rv (voiceStyleRef s) x)"
      "submitThrows rv w (scriptedTextOf rv (voiceStyleRef s) x) s"
      "r = Exit Thrown (submit rv w (scriptedTextOf rv (voiceStyleRef s) x) s)"
  | (submitted) x rest s' where "queueRef s = x # rest" "connected_at w (now s)"
      "\<not> blank (scriptedTextOf rv (voiceStyleRef s) x)"
      "\<not> submitThrows rv w (scriptedTextOf rv (voiceStyleRef s) x) s"
      "waits w (streamer_at w (now s))
         ((submit rv w (scriptedTextOf rv (voiceStyleRef s) x) s)\<lparr>queueRef := rest\<rparr>) = Some s'"
      "r = Continue s'"
proof (cases "queueRef s")
  case Nil
  with assms completed show ?thesis by (simp add: iteration_Nil)
next
  case (Cons x rest)
  show ?thesis
  proof (cases "connected_at w (now s)")
    case False
    with assms Cons disconnected show ?thesis by (simp add: iteration_disconnected)
  next
    case c: True
    show ?thesis
    proof (cases "blank (scriptedTextOf rv (voiceStyleRef s) x)")
      case True
      with assms Cons c skipped show ?thesis by (simp add: iteration_blank)
    next
      case nb: False
      show ?thesis
      proof (cases "submitThrows rv w (scriptedTextOf rv (voiceStyleRef s) x) s")
        case True
        with assms Cons c nb thrown show ?thesis by (simp add: iteration_thrown)
      next
        case False
        with assms Cons c nb have
          "map_option Continue (waits w (streamer_at w (now s))
             ((submit rv w (scriptedTextOf rv (voiceStyleRef s) x) s)\<lparr>queueRef := rest\<rparr>)) = Some r"
          by (simp add: iteration_submitted)
        then obtain s' where "waits w (streamer_at w (now s))
             ((submit rv w (scriptedTextOf rv (voiceStyleRef s) x) s)\<lparr>queueRef := rest\<rparr>) = Some s'"
          "r = Continue s'" by auto
        with Cons c nb False submitted show ?thesis by blast
      qed
    qed
  qed
qed

lemma iteration_Continue_shorter:
  assumes "iteration rv w s = Some (Continue s1)"
  shows "length (queueRef s1) < length (queueRef s)"
  using assms
proof (cases rule: iteration_cases)
  case (skipped x rest)
  then show ?thesis by simp
next
  case (submitted x rest s')
  from waits_Some(1)[OF submitted(5)] submitted show ?thesis by simp
qed simp_all

lemma queueWhile_run_induct [consumes 1, case_names Exit Continue]:
  assumes "queueWhile rv w s = Some (e, s')"
    and "\<And>s. iteration rv w s = Some (Exit e s') \<Longrightarrow> P s"
    and "\<And>s s1. iteration rv w s = Some (Continue s1) \<Longrightarrow>
           queueWhile rv w s1 = Some (e, s') \<Longrightarrow> P s1 \<Longrightarrow> P s"
  shows "P s"
  using assms(1)
proof (induction "length (queueRef s)" arbitrary: s rule: less_induct)
  case less
  show ?case
  proof (cases "iteration rv w s")
    case None
    with less(2) show ?thesis by (simp add: queueWhile_None)
  next
    case (Some r)
    show ?thesis
    proof (cases r)
      case (Continue s1)
      with Some have it: "iteration rv w s = Some (Continue s1)" by simp
      with less(2) have q: "queueWhile rv w s1 = Some (e, s')"
        by (simp add: queueWhile_Continue)
      from less(1)[OF iteration_Continue_shorter[OF it] q] have "P s1" .
      with it q show ?thesis by (rule assms(3))
    next
      case (Exit e0 s0)
      with Some have it: "iteration rv w s = Some (Exit e0 s0)" by simp
      with less(2) have "e0 = e" "s0 = s'" by (simp_all add: queueWhile_Exit)
      with it show ?thesis by (auto intro: assms(2))
    qed
  qed
qed

lemma queueWhile_total:
  assumes "\<forall>t. \<exists>k. duration (streamer_at w (t + 200 * k)) < 3"
  shows "\<exists>r. queueWhile rv w s = Some r"
proof (induction "length (queueRef s)" arbitrary: s rule: less_induct)
  case less
  have "iteration rv w s \<noteq> None"
  proof (cases "queueRef s")
    case Nil
    then show ?thesis by (simp add: iteration_Nil)
  next
    case (Cons x rest)
    from waits_total[OF assms] obtain s' where
      "waits w (streamer_at w (now s))
         ((submit rv w (scriptedTextOf rv (voiceStyleRef s) x) s)\<lparr>queueRef := rest\<rparr>) = Some s'"
      by blast
    with Cons show ?thesis
      by (simp add: iteration_def Let_def)
  qed
  then obtain r where r: "iteration rv w s = Some r" by auto
  show ?case
  proof (cases r)
    case (Continue s1)
    with r have it: "iteration rv w s = Some (Continue s1)" by simp
    from less(1)[OF iteration_Continue_shorter[OF it]] show ?thesis
      by (simp add: queueWhile_Continue[OF it])
  next
    case (Exit e0 s0)
    with r show ?thesis by (simp add: queueWhile_Exit)
  qed
qed

lemma queueWhile_run:
  assumes "queueWhile rv w s = Some (e, s')"
  shows "\<exists>k new. k \<le> length (queueRef s) \<and> queueRef s' = drop k (queueRef s) \<and>
           voiceStyleRef s' = voiceStyleRef s \<and> trace s' = trace s @ new \<and>
           synthesized new =
             speakable rv (voiceStyleRef s) (take k (queueRef s)) @
             (if e = Thrown then [scriptedTextOf rv (voiceStyleRef s) (hd (drop k (queueRef s)))]
              else []) \<and>
           (\<forall>t x. Synthesize t x \<in> set new \<longrightarrow> connected_at w t) \<and>
           ((\<forall>t x. synth_ok w t x = ok x) \<longrightarrow>
              sent new = map (fallbackText rv) (filter (\<lambda>x. \<not> ok x) (synthesized new))) \<and>
           (e = Completed \<longrightarrow> k = length (queueRef s)) \<and>
           (e = Thrown \<longrightarrow> (\<exists>t x. send_throws w t x))"
  using assms
proof (induction rule: queueWhile_run_induct)
  case (Exit s)
  from Exit show ?case
  proof (cases rule: iteration_cases)
    case completed
    then show ?thesis by (intro exI[of _ 0] exI[of _ "[]"]) simp
  next
    case (disconnected x rest)
    then show ?thesis by (intro exI[of _ 0] exI[of _ "[]"]) simp
  next
    case (thrown x rest)
    let ?x = "scriptedTextOf rv (voiceStyleRef s) x"
    let ?new = "[Synthesize (now s) ?x,
                 Send (now s + synth_latency w (now s) ?x) (fallbackText rv ?x)]"
    from thrown have nok: "\<not> synth_ok w (now s) ?x"
      and th: "send_throws w (now s + synth_latency w (now s) ?x) (fallbackText rv ?x)"
      by (simp_all add: submitThrows_def)
    from thrown nok have "trace s' = trace s @ ?new"
      by (simp add: submit_trace)
    with thrown nok th show ?thesis
      by (intro exI[of _ 0] exI[of _ ?new]) auto
  qed simp_all
next
  case (Continue s s1)
  then obtain k new where k: "k \<le> length (queueRef s1)" "queueRef s' = drop k (queueRef s1)"
    "voiceStyleRef s' = voiceStyleRef s1" "trace s' = trace s1 @ new"
    "synthesized new =
       speakable rv (voiceStyleRef s1) (take k (queueRef s1)) @
       (if e = Thrown then [scriptedTextOf rv (voiceStyleRef s1) (hd (drop k (queueRef s1)))]
        else [])"
    "\<forall>t x. Synthesize t x \<in> set new \<longrightarrow> connected_at w t"
    "(\<forall>t x. synth_ok w t x = ok x) \<longrightarrow>
       sent new = map (fallbackText rv) (filter (\<lambda>x. \<not> ok x) (synthesized new))"
    "e = Completed \<longrightarrow> k = length (queueRef s1)"
    "e = Thrown \<longrightarrow> (\<exists>t x. send_throws w t x)"
    by blast
  from Continue(1) show ?case
  proof (cases rule: iteration_cases)
    case (skipped x rest)
    with k show ?thesis
      by (intro exI[of _ "Suc k"] exI[of _ new]) simp
  next
    case (submitted x rest s2)
    let ?x = "scriptedTextOf rv (voiceStyleRef s) x"
    let ?sub = "(submit rv w ?x s)\<lparr>queueRef := rest\<rparr>"
    let ?ev = "Synthesize (now s) ?x #
       (if synth_ok w (now s) ?x then []
        else [Send (now s + synth_latency w (now s) ?x) (fallbackText rv ?x)]) @
       (if fst (awaitArrival w (streamer_at w (now s)) (now ?sub) (now ?sub)) then []
        else [Warn (snd (awaitArrival w (streamer_at w (now s)) (now ?sub) (now ?sub)))])"
    from submitted have s12: "s1 = s2" by simp
    note ws = waits_Some[OF submitted(5)]
    have q: "queueRef s1 = rest" and v: "voiceStyleRef s1 = voiceStyleRef s"
      using ws(1,3) s12 by simp_all
    have tr: "trace s1 = trace s @ ?ev"
      using ws(6) s12 by (simp add: submit_trace)
    have syn: "synthesized ?ev = [?x]" by simp
    have snt: "(\<forall>t x. synth_ok w t x = ok x) \<longrightarrow>
       sent ?ev = map (fallbackText rv) (filter (\<lambda>x. \<not> ok x) [?x])"
      by simp
    have con: "\<forall>t y. Synthesize t y \<in> set ?ev \<longrightarrow> connected_at w t"
      using submitted(2) by auto
    show ?thesis
    proof (intro exI[of _ "Suc k"] exI[of _ "?ev @ new"] conjI)
      show "Suc k \<le> length (queueRef s)" using k(1) q submitted(1) by simp
      show "queueRef s' = drop (Suc k) (queueRef s)" using k(2) q submitted(1) by simp
      show "voiceStyleRef s' = voiceStyleRef s" using k(3) v by simp
      show "trace s' = trace s @ ?ev @ new" using k(4) tr by simp
      show "synthesized (?ev @ new) =
             speakable rv (voiceStyleRef s) (take (Suc k) (queueRef s)) @
             (if e = Thrown
              then [scriptedTextOf rv (voiceStyleRef s) (hd (drop (Suc k) (queueRef s)))]
              else [])"
        using k(5) q v submitted(1,3) by (simp only: synthesized_append syn) simp
      show "\<forall>t x. Synthesize t x \<in> set (?ev @ new) \<longrightarrow> connected_at w t"
        using con k(6) by (simp only: set_append) blast
      show "(\<forall>t x. synth_ok w t x = ok x) \<longrightarrow>
              sent (?ev @ new) =
              map (fallbackText rv) (filter (\<lambda>x. \<not> ok x) (synthesized (?ev @ new)))"
        using snt k(7) by (simp only: synthesized_append sent_append syn) simp
      show "e = Completed \<longrightarrow> Suc k = length (queueRef s)"
        using k(8) q submitted(1) by simp
      show "e = Thrown \<longrightarrow> (\<exists>t x. send_throws w t x)" using k(9) .
    qed
  qed simp_all
qed


lemma queueWhile_flag:
  assumes "queueWhile rv w s = Some (e, s')"
  shows "isProcessingRef s' = (isProcessingRef s \<and> e \<noteq> Disconnected)"
  using assms
proof (induction rule: queueWhile_run_induct)
  case (Exit s)
  then show ?case by (cases rule: iteration_cases) simp_all
next
  case (Continue s s1)
  from Continue(1) have "isProcessingRef s1 = isProcessingRef s"
  proof (cases rule: iteration_cases)
    case (submitted x rest s2)
    from waits_Some(2)[OF submitted(5)] submitted(6) show ?thesis by simp
  qed simp_all
  with Continue(3) show ?case by simp
qed

lemma queueWhile_Disconnected:
  assumes "queueWhile rv w s = Some (Disconnected, s')"
  shows "\<exists>t. \<not> connected_at w t"
  using assms
proof (induction rule: queueWhile_run_induct)
  case (Exit s)
  then show ?case by (cases rule: iteration_cases) auto
next
  case (Continue s s1)
  then show ?case by simp
qed

lemma processQueueLoop_Some:
  assumes "\<not> isProcessingRef s" and "processQueueLoop rv w s = Some s'"
  obtains e s0 where "queueWhile rv w (s\<lparr>isProcessingRef := True\<rparr>) = Some (e, s0)"
    and "s' = (if e = Thrown then s0\<lparr>trace := trace s0 @ [LogError (now s0)]\<rparr> else s0)
               \<lparr>isProcessingRef := False\<rparr>"
  using assms by (auto simp: processQueueLoop_unfold Let_def split: option.splits)

lemma processQueueLoop_total:
  assumes "\<forall>t. \<exists>k. duration (streamer_at w (t + 200 * k)) < 3"
  shows "\<exists>s'. processQueueLoop rv w s = Some s'"
  using queueWhile_total[OF assms, of rv "s\<lparr>isProcessingRef := True\<rparr>"]
  by (auto simp: processQueueLoop_unfold Let_def)

lemma queueWhile_runE:
  assumes "queueWhile rv w s0 = Some (e, s')"
    and "queueRef s0 = q" and "voiceStyleRef s0 = st" and "trace s0 = tr"
  obtains k new where "k \<le> length q" and "queueRef s' = drop k q" and "trace s' = tr @ new"
    and "synthesized new = speakable rv st (take k q) @
           (if e = Thrown then [scriptedTextOf rv st (hd (drop k q))] else [])"
    and "\<forall>t x. Synthesize t x \<in> set new \<longrightarrow> connected_at w t"
    and "(\<forall>t x. synth_ok w t x = ok x) \<longrightarrow>
           sent new = map (fallbackText rv) (filter (\<lambda>x. \<not> ok x) (synthesized new))"
    and "e = Completed \<longrightarrow> k = length q"
    and "e = Thrown \<longrightarrow> (\<exists>t x. send_throws w t x)"
  using queueWhile_run[OF assms(1), of ok] unfolding assms(2,3,4)
  by (elim exE conjE) (rule that, assumption+)

text \<open>What a call that returns has done, when \<open>client.send\<close> does not throw.\<close>

lemma processQueueLoop_run:
  assumes "\<not> isProcessingRef s" and "\<forall>t x. \<not> send_throws w t x"
    and "processQueueLoop rv w s = Some s'"
  obtains k new where "k \<le> length (queueRef s)" and "queueRef s' = drop k (queueRef s)"
    and "trace s' = trace s @ new"
    and "synthesized new = speakable rv (voiceStyleRef s) (take k (queueRef s))"
    and "\<forall>t x. Synthesize t x \<in> set new \<longrightarrow> connected_at w t"
    and "(\<forall>t x. synth_ok w t x = ok x) \<longrightarrow>
           sent new = map (fallbackText rv) (filter (\<lambda>x. \<not> ok x) (synthesized new))"
    and "(\<forall>t. connected_at w t) \<longrightarrow> k = length (queueRef s)"
proof -
  from assms(1,3) obtain e s0 where
    q: "queueWhile rv w (s\<lparr>isProcessingRef := True\<rparr>) = Some (e, s0)"
    and s': "s' = (if e = Thrown then s0\<lparr>trace := trace s0 @ [LogError (now s0)]\<rparr> else s0)
               \<lparr>isProcessingRef := False\<rparr>"
    by (rule processQueueLoop_Some)
  obtain k new where
    k: "k \<le> length (queueRef s)" "queueRef s0 = drop k (queueRef s)"
      "trace s0 = trace s @ new"
      "synthesized new = speakable rv (voiceStyleRef s) (take k (queueRef s)) @
         (if e = Thrown then [scriptedTextOf rv (voiceStyleRef s) (hd (drop k (queueRef s)))]
          else [])"
      "\<forall>t x. Synthesize t x \<in> set new \<longrightarrow> connected_at w t"
      "(\<forall>t x. synth_ok w t x = ok x) \<longrightarrow>
         sent new = map (fallbackText rv) (filter (\<lambda>x. \<not> ok x) (synthesized new))"
      "e = Completed \<longrightarrow> k = length (queueRef s)"
      "e = Thrown \<longrightarrow> (\<exists>t x. send_throws w t x)"
    by (rule queueWhile_runE[OF q, of "queueRef s" "voiceStyleRef s" "trace s" ok]) simp_all
  from k(8) assms(2) have nt: "e \<noteq> Thrown" by auto
  have c: "(\<forall>t. connected_at w t) \<longrightarrow> e = Completed"
  proof
    assume a: "\<forall>t. connected_at w t"
    show "e = Completed"
    proof (cases e)
      case Disconnected
      with q queueWhile_Disconnected[of rv w "s\<lparr>isProcessingRef := True\<rparr>" s0] a
      show ?thesis by simp
    next
      case Thrown
      with nt show ?thesis by simp
    qed simp
  qed
  from nt s' have eq: "queueRef s' = queueRef s0" "trace s' = trace s0" by simp_all
  show thesis
  proof (rule that[of k new])
    show "k \<le> length (queueRef s)" by (rule k(1))
    show "queueRef s' = drop k (queueRef s)" using k(2) eq by simp
    show "trace s' = trace s @ new" using k(3) eq by simp
    show "synthesized new = speakable rv (voiceStyleRef s) (take k (queueRef s))"
      using k(4) nt by simp
    show "\<forall>t x. Synthesize t x \<in> set new \<longrightarrow> connected_at w t" by (rule k(5))
    show "(\<forall>t x. synth_ok w t x = ok x) \<longrightarrow>
           sent new = map (fallbackText rv) (filter (\<lambda>x. \<not> ok x) (synthesized new))"
      by (rule k(6))
    show "(\<forall>t. connected_at w t) \<longrightarrow> k = length (queueRef s)" using c k(7) by blast
  qed
qed

lemma processQueueLoop_drains:
  assumes "\<not> isProcessingRef s" and "\<forall>t x. \<not> send_throws w t x"
    and "\<forall>t. connected_at w t" and "\<forall>t. \<exists>k. duration (streamer_at w (t + 200 * k)) < 3"
  obtains s' new where "processQueueLoop rv w s = Some s'" and "queueRef s' = []"
    and "trace s' = trace s @ new"
    and "synthesized new = speakable rv (voiceStyleRef s) (queueRef s)"
    and "(\<forall>t x. synth_ok w t x = ok x) \<longrightarrow>
           sent new = map (fallbackText rv) (filter (\<lambda>x. \<not> ok x) (synthesized new))"
proof -
  from processQueueLoop_total[OF assms(4)] obtain s' where
    s': "processQueueLoop rv w s = Some s'" by blast
  obtain k new where k: "k \<le> length (queueRef s)" "queueRef s' = drop k (queueRef s)"
    "trace s' = trace s @ new"
    "synthesized new = speakable rv (voiceStyleRef s) (take k (queueRef s))"
    "(\<forall>t x. synth_ok w t x = ok x) \<longrightarrow>
           sent new = map (fallbackText rv) (filter (\<lambda>x. \<not> ok x) (synthesized new))"
    "(\<forall>t. connected_at w t) \<longrightarrow> k = length (queueRef s)"
    by (rule processQueueLoop_run[OF assms(1,2) s', of ok])
  from k(6) assms(3) have kl: "k = length (queueRef s)" by simp
  show thesis
  proof (rule that[of s' new])
    show "processQueueLoop rv w s = Some s'" by (rule s')
    show "queueRef s' = []" using k(2) kl by simp
    show "trace s' = trace s @ new" by (rule k(3))
    show "synthesized new = speakable rv (voiceStyleRef s) (queueRef s)" using k(4) kl by simp
    show "(\<forall>t x. synth_ok w t x = ok x) \<longrightarrow>
           sent new = map (fallbackText rv) (filter (\<lambda>x. \<not> ok x) (synthesized new))"
      by (rule k(5))
  qed
qed


lemma iteration_Continue_summary:
  assumes "iteration rv w s = Some (Continue s1)"
  obtains x rest where "queueRef s = x # rest" and "queueRef s1 = rest"
    and "connected_at w (now s)"
    and "isProcessingRef s1 = isProcessingRef s"
    and "synthesized (trace s1) = synthesized (trace s) @ speakable rv (voiceStyleRef s) [x]"
  using assms
proof (cases rule: iteration_cases)
  case (skipped x rest)
  then show ?thesis by (intro that[of x rest]) simp_all
next
  case (submitted x rest s2)
  note ws = waits_Some[OF submitted(5)]
  from submitted ws show ?thesis
    by (intro that[of x rest]) (simp_all add: submit_trace)
qed simp_all

section \<open>Order of submission\<close>

lemma blank_simps [simp]:
  "\<not> blank ''A''" "\<not> blank ''B''" "\<not> blank ''C''"
  by (simp_all add: blank_def trim_def isWhiteSpace_def)

lemma cleanText_A: "cleanText ''A'' = ''A''"
  by (simp add: cleanText_def)

text \<open>A call that finds A at the head, when every synthesis call fails and \<open>client.send\<close> throws.\<close>

lemma processQueueLoop_throwing:
  assumes "\<not> isProcessingRef s" and "queueRef s = ''A'' # rest"
  shows "processQueueLoop Bridge throwingWorld s =
           Some (s\<lparr>now := now s + 500,
                   trace := trace s @ [Synthesize (now s) ''A'', Send (now s + 500) ''A'',
                                       LogError (now s + 500)]\<rparr>)"
proof -
  have "iteration Bridge throwingWorld (s\<lparr>isProcessingRef := True\<rparr>) =
          Some (Exit Thrown (submit Bridge throwingWorld ''A'' (s\<lparr>isProcessingRef := True\<rparr>)))"
    using assms(2)
    by (subst iteration_thrown[where rawText = "''A''" and rest = rest])
       (simp_all add: submitThrows_def scriptedTextOf_def)
  then have "queueWhile Bridge throwingWorld (s\<lparr>isProcessingRef := True\<rparr>) =
          Some (Thrown, submit Bridge throwingWorld ''A'' (s\<lparr>isProcessingRef := True\<rparr>))"
    by (rule queueWhile_Exit)
  then show ?thesis
    using assms(1)
    by (simp add: processQueueLoop_unfold submit_def Let_def fallbackText_def cleanText_A)
qed

text \<open>
  C1, as the claim states it, fails: the head is removed after the fallback (line 169,
  inside the \<open>try\<close>), so when the synthesis call fails and \<open>client.send\<close> throws, the loop is
  left with the head still in the queue, and the next call submits it again. Here two
  calls, one after the other, on the queue [A, B]: the queue is the same after the first,
  and A has been handed to the synthesis call twice after the second.
\<close>

theorem fallback_throw_resubmits_counterexample:
  "queuedBy (processQueueLoop Bridge throwingWorld (queued Natural [''A'', ''B''])) =
     Some [''A'', ''B''] \<and>
   synthesizedBy
     (Option.bind (processQueueLoop Bridge throwingWorld (queued Natural [''A'', ''B'']))
        (processQueueLoop Bridge throwingWorld)) = Some [''A'', ''A'']"
  by (simp add: processQueueLoop_throwing[where rest = "[''B'']"] queuedBy_def synthesizedBy_def)

text \<open>
  C1, amended: in a call of \<open>processQueueLoop\<close> that is left alone while it is suspended,
  and when \<open>client.send\<close> does not throw, every pass through the loop body removes the
  head of the queue and no other element, after handing its scripted text to the synthesis
  call once, or not at all when that text is blank, whatever the call answers; a call that
  returns has removed a prefix of the queue and has made the synthesis calls for exactly
  the texts of that prefix, in queue order; and with a connection that stays up and a
  buffer that lets every pipelining wait end, the call returns with the queue empty, having
  submitted A, B, C in this order for the queue [A, B, C].
\<close>

theorem fifo_at_most_once:
  assumes "\<not> isProcessingRef s" and "\<forall>t x. \<not> send_throws w t x"
  shows "(iteration rv w s = Some (Continue s1) \<longrightarrow>
            queueRef s1 = tl (queueRef s) \<and>
            synthesized (trace s1) =
              synthesized (trace s) @ speakable rv (voiceStyleRef s) [hd (queueRef s)]) \<and>
         (processQueueLoop rv w s = Some s' \<longrightarrow>
            (\<exists>k\<le>length (queueRef s). queueRef s' = drop k (queueRef s) \<and>
               synthesized (trace s') =
                 synthesized (trace s) @ speakable rv (voiceStyleRef s) (take k (queueRef s)))) \<and>
         ((\<forall>t. connected_at w t) \<and> (\<forall>t. \<exists>k. duration (streamer_at w (t + 200 * k)) < 3) \<longrightarrow>
            (\<exists>s'. processQueueLoop rv w s = Some s' \<and> queueRef s' = [] \<and>
               synthesized (trace s') =
                 synthesized (trace s) @ speakable rv (voiceStyleRef s) (queueRef s)))"
proof -
  have 1: "iteration rv w s = Some (Continue s1) \<longrightarrow>
            queueRef s1 = tl (queueRef s) \<and>
            synthesized (trace s1) =
              synthesized (trace s) @ speakable rv (voiceStyleRef s) [hd (queueRef s)]"
  proof
    assume "iteration rv w s = Some (Continue s1)"
    then obtain x rest where "queueRef s = x # rest" "queueRef s1 = rest"
      "synthesized (trace s1) = synthesized (trace s) @ speakable rv (voiceStyleRef s) [x]"
      by (rule iteration_Continue_summary)
    then show "queueRef s1 = tl (queueRef s) \<and>
            synthesized (trace s1) =
              synthesized (trace s) @ speakable rv (voiceStyleRef s) [hd (queueRef s)]"
      by simp
  qed
  have 2: "processQueueLoop rv w s = Some s' \<longrightarrow>
            (\<exists>k\<le>length (queueRef s). queueRef s' = drop k (queueRef s) \<and>
               synthesized (trace s') =
                 synthesized (trace s) @ speakable rv (voiceStyleRef s) (take k (queueRef s)))"
  proof
    assume r: "processQueueLoop rv w s = Some s'"
    obtain k new where k: "k \<le> length (queueRef s)" "queueRef s' = drop k (queueRef s)"
      "trace s' = trace s @ new"
      "synthesized new = speakable rv (voiceStyleRef s) (take k (queueRef s))"
      by (rule processQueueLoop_run[OF assms r])
    then have "k \<le> length (queueRef s) \<and> queueRef s' = drop k (queueRef s) \<and>
               synthesized (trace s') =
                 synthesized (trace s) @ speakable rv (voiceStyleRef s) (take k (queueRef s))"
      by simp
    then show "\<exists>k\<le>length (queueRef s). queueRef s' = drop k (queueRef s) \<and>
               synthesized (trace s') =
                 synthesized (trace s) @ speakable rv (voiceStyleRef s) (take k (queueRef s))"
      by (rule exI)
  qed
  have 3: "(\<forall>t. connected_at w t) \<and> (\<forall>t. \<exists>k. duration (streamer_at w (t + 200 * k)) < 3) \<longrightarrow>
            (\<exists>s'. processQueueLoop rv w s = Some s' \<and> queueRef s' = [] \<and>
               synthesized (trace s') =
                 synthesized (trace s) @ speakable rv (voiceStyleRef s) (queueRef s))"
  proof
    assume a: "(\<forall>t. connected_at w t) \<and> (\<forall>t. \<exists>k. duration (streamer_at w (t + 200 * k)) < 3)"
    then have c: "\<forall>t. connected_at w t"
      and d: "\<forall>t. \<exists>k. duration (streamer_at w (t + 200 * k)) < 3" by simp_all
    obtain s2 new where "processQueueLoop rv w s = Some s2" "queueRef s2 = []"
      "trace s2 = trace s @ new"
      "synthesized new = speakable rv (voiceStyleRef s) (queueRef s)"
      by (rule processQueueLoop_drains[OF assms c d])
    then have "processQueueLoop rv w s = Some s2 \<and> queueRef s2 = [] \<and>
               synthesized (trace s2) =
                 synthesized (trace s) @ speakable rv (voiceStyleRef s) (queueRef s)"
      by simp
    then show "\<exists>s'. processQueueLoop rv w s = Some s' \<and> queueRef s' = [] \<and>
               synthesized (trace s') =
                 synthesized (trace s) @ speakable rv (voiceStyleRef s) (queueRef s)"
      by (rule exI)
  qed
  from 1 2 3 show ?thesis by (intro conjI)
qed

theorem fifo_at_most_once_witness:
  "(\<exists>s'. processQueueLoop Bridge steadyWorld (queued Natural [''A'', ''B'', ''C'']) = Some s' \<and>
         queueRef s' = [] \<and> synthesized (trace s') = [''A'', ''B'', ''C'']) \<and>
   (\<exists>s'. processQueueLoop Bridge (failingFor ''B'') (queued Natural [''A'', ''B'', ''C'']) = Some s' \<and>
         queueRef s' = [] \<and> synthesized (trace s') = [''A'', ''B'', ''C''])"
proof -
  from fifo_at_most_once[of "queued Natural [''A'', ''B'', ''C'']" steadyWorld Bridge,
      THEN conjunct2, THEN conjunct2]
  have 1: "\<exists>s'. processQueueLoop Bridge steadyWorld (queued Natural [''A'', ''B'', ''C'']) = Some s' \<and>
         queueRef s' = [] \<and> synthesized (trace s') = [''A'', ''B'', ''C'']"
    by (simp add: scriptedTextOf_def)
  from fifo_at_most_once[of "queued Natural [''A'', ''B'', ''C'']" "failingFor ''B''" Bridge,
      THEN conjunct2, THEN conjunct2]
  have 2: "\<exists>s'. processQueueLoop Bridge (failingFor ''B'') (queued Natural [''A'', ''B'', ''C'']) = Some s' \<and>
         queueRef s' = [] \<and> synthesized (trace s') = [''A'', ''B'', ''C'']"
    by (simp add: scriptedTextOf_def)
  from 1 2 show ?thesis by (rule conjI)
qed


section \<open>The processing flag\<close>

lemma pauses_flag:
  "p \<in> set (pauses rv w s) \<Longrightarrow> isProcessingRef p = isProcessingRef s"
  by (auto simp: pauses_def Let_def split: list.splits if_splits)

lemma allPauses_flag:
  "p \<in> set (allPauses rv w s) \<Longrightarrow> isProcessingRef p = isProcessingRef s"
proof (induction rv w s rule: allPauses.induct)
  case (1 rv w s)
  from "1.prems" have "p \<in> set (pauses rv w s) \<or>
      (\<exists>s1. iteration rv w s = Some (Continue s1) \<and> p \<in> set (allPauses rv w s1))"
    by (subst (asm) allPauses.simps) (auto split: option.splits step.splits)
  then consider "p \<in> set (pauses rv w s)"
    | s1 where "iteration rv w s = Some (Continue s1)" and "p \<in> set (allPauses rv w s1)"
    by blast
  then show ?case
  proof cases
    case 1
    then show ?thesis by (rule pauses_flag)
  next
    case (2 s1)
    from "1.IH"[OF 2(1) refl 2(2)] have "isProcessingRef p = isProcessingRef s1" .
    moreover from 2(1) have "isProcessingRef s1 = isProcessingRef s"
      by (auto elim: iteration_Continue_summary)
    ultimately show ?thesis by simp
  qed
qed

text \<open>The first suspension of the loop is in the synthesis call for the head of the queue.\<close>

lemma allPauses_first:
  assumes "queueRef s = x # rest" and "connected_at w (now s)"
    and "\<not> blank (scriptedTextOf rv (voiceStyleRef s) x)"
  shows "allPauses rv w s \<noteq> []"
    and "hd (allPauses rv w s) =
           s\<lparr>trace := trace s @ [Synthesize (now s) (scriptedTextOf rv (voiceStyleRef s) x)]\<rparr>"
  using assms by (subst allPauses.simps, simp add: pauses_def Let_def blank_def)+

text \<open>
  With a buffer that always holds five seconds of audio the call is suspended twice: in the
  synthesis call, and in the waits.
\<close>

lemma suspensions_stuck:
  "suspensions Bridge stuckWorld (queued Natural [''A'']) =
     [(queued Natural [''A''])\<lparr>isProcessingRef := True, trace := [Synthesize 0 ''A'']\<rparr>,
      (queued Natural [''A''])\<lparr>isProcessingRef := True, queueRef := [], now := 500,
                                trace := [Synthesize 0 ''A'']\<rparr>]"
proof -
  let ?s0 = "(queued Natural [''A''])\<lparr>isProcessingRef := True\<rparr>"
  have w: "\<And>pre s. waits stuckWorld pre s = None"
    by (simp add: waits_def Let_def pipeliningWait_None_iff)
  have 1: "iteration Bridge stuckWorld ?s0 = None"
    by (subst iteration_submitted[where rawText = "''A''" and rest = "[]"])
       (simp_all add: scriptedTextOf_def submitThrows_def w)
  have "allPauses Bridge stuckWorld ?s0 =
     [?s0\<lparr>trace := [Synthesize 0 ''A'']\<rparr>,
      ?s0\<lparr>queueRef := [], now := 500, trace := [Synthesize 0 ''A'']\<rparr>]"
    by (subst allPauses.simps)
       (simp add: 1 pauses_def Let_def scriptedTextOf_def submitThrows_def submit_def trim_A
          sleeps_def)
  then show ?thesis by (simp add: suspensions_unfold)
qed

lemma take_1_hd: "xs \<noteq> [] \<Longrightarrow> take (Suc 0) xs = [hd xs]"
  by (cases xs) simp_all

lemma suspensions_first:
  assumes "\<not> isProcessingRef s" and "queueRef s = x # rest" and "connected_at w (now s)"
    and "\<not> blank (scriptedTextOf rv (voiceStyleRef s) x)"
  shows "take 1 (suspensions rv w s) =
           [s\<lparr>isProcessingRef := True,
              trace := trace s @ [Synthesize (now s) (scriptedTextOf rv (voiceStyleRef s) x)]\<rparr>]"
  using assms allPauses_first[of "s\<lparr>isProcessingRef := True\<rparr>" x rest w rv]
  by (simp add: suspensions_unfold take_1_hd)

text \<open>
  C6, as the claim states it, fails: the guard turns a second call away only as long as the
  flag is set, and the effect that defines the loop clears the flag whenever it runs again
  (line 134), then starts the loop if the queue is not empty (lines 200-202). Here a first
  call is suspended in the synthesis call for A, with the flag set and A still at the head
  of the queue; the effect runs again with the connection up, clears the flag and calls
  \<open>processQueueLoop\<close>; this call runs the loop body, and at its first suspension A has been
  handed to the synthesis call twice.
\<close>

theorem effect_starts_second_loop_counterexample:
  "map isProcessingRef (take 1 (suspensions Bridge steadyWorld (queued Natural [''A'', ''B'']))) =
     [True] \<and>
   map (effect True) (take 1 (suspensions Bridge steadyWorld (queued Natural [''A'', ''B'']))) =
     [((queued Natural [''A'', ''B''])\<lparr>trace := [Synthesize 0 ''A'']\<rparr>, True)] \<and>
   map trace (take 1 (suspensions Bridge steadyWorld
       ((queued Natural [''A'', ''B''])\<lparr>trace := [Synthesize 0 ''A'']\<rparr>))) =
     [[Synthesize 0 ''A'', Synthesize 0 ''A'']]"
proof -
  have 1: "take 1 (suspensions Bridge steadyWorld (queued Natural [''A'', ''B''])) =
     [(queued Natural [''A'', ''B''])\<lparr>isProcessingRef := True, trace := [Synthesize 0 ''A'']\<rparr>]"
    using suspensions_first[of "queued Natural [''A'', ''B'']" "''A''" "[''B'']" steadyWorld Bridge]
    by (simp add: scriptedTextOf_def)
  have 2: "take 1 (suspensions Bridge steadyWorld
       ((queued Natural [''A'', ''B''])\<lparr>trace := [Synthesize 0 ''A'']\<rparr>)) =
     [(queued Natural [''A'', ''B''])
        \<lparr>trace := [Synthesize 0 ''A''], isProcessingRef := True,
          trace := [Synthesize 0 ''A'', Synthesize 0 ''A'']\<rparr>]"
    using suspensions_first[of "(queued Natural [''A'', ''B''])\<lparr>trace := [Synthesize 0 ''A'']\<rparr>"
        "''A''" "[''B'']" steadyWorld Bridge]
    by (simp add: scriptedTextOf_def)
  have 3: "effect True
      ((queued Natural [''A'', ''B''])\<lparr>isProcessingRef := True, trace := [Synthesize 0 ''A'']\<rparr>) =
     ((queued Natural [''A'', ''B''])\<lparr>trace := [Synthesize 0 ''A'']\<rparr>, True)"
    by (simp add: effect_def Let_def queued_def initial_def)
  show ?thesis
    unfolding 1 2 by (simp add: 3)
qed

text \<open>
  C6, amended: \<open>isProcessingRef\<close> starts as false; a call of \<open>processQueueLoop\<close> that finds it
  true returns at once, without suspending, and changes nothing; a call that finds it false
  sets it before its first suspension, which is in the synthesis call for the head of the
  queue, and the flag is set at every suspension of the call, so that a further call of
  \<open>processQueueLoop\<close> made there returns at once and changes nothing, as long as nothing
  outside the loop has cleared the flag; no pass through the loop body changes the flag,
  and the loop itself clears it only on the exit by disconnection; and however the loop is
  left, when the queue is drained, by an error thrown, or by disconnection, the call
  returns with the flag false.
\<close>

theorem single_flight:
  "\<not> isProcessingRef (initial style language) \<and>
   (isProcessingRef s \<longrightarrow> processQueueLoop rv w s = Some s \<and> suspensions rv w s = []) \<and>
   (\<forall>p \<in> set (suspensions rv w s).
      isProcessingRef p \<and> processQueueLoop rv w p = Some p \<and> suspensions rv w p = []) \<and>
   (\<not> isProcessingRef s \<and> queueRef s = rawText # rest \<and> connected_at w (now s) \<and>
    \<not> blank (scriptedTextOf rv (voiceStyleRef s) rawText) \<longrightarrow>
      suspensions rv w s \<noteq> [] \<and>
      hd (suspensions rv w s) =
        s\<lparr>isProcessingRef := True,
          trace := trace s @ [Synthesize (now s) (scriptedTextOf rv (voiceStyleRef s) rawText)]\<rparr>) \<and>
   (\<not> isProcessingRef s \<and> processQueueLoop rv w s = Some s' \<longrightarrow>
      (\<exists>e s0. queueWhile rv w (s\<lparr>isProcessingRef := True\<rparr>) = Some (e, s0))) \<and>
   (iteration rv w s = Some (Continue s1) \<longrightarrow> isProcessingRef s1 = isProcessingRef s) \<and>
   (queueWhile rv w s = Some (e, s0) \<longrightarrow>
      isProcessingRef s0 = (isProcessingRef s \<and> e \<noteq> Disconnected)) \<and>
   (\<not> isProcessingRef s \<and> processQueueLoop rv w s = Some s' \<longrightarrow> \<not> isProcessingRef s')"
proof -
  have 1: "\<not> isProcessingRef (initial style language)"
    by (simp add: initial_def)
  have 2: "isProcessingRef s \<longrightarrow> processQueueLoop rv w s = Some s \<and> suspensions rv w s = []"
    by (simp add: processQueueLoop_unfold suspensions_unfold)
  have 3: "\<forall>p \<in> set (suspensions rv w s).
      isProcessingRef p \<and> processQueueLoop rv w p = Some p \<and> suspensions rv w p = []"
  proof
    fix p assume "p \<in> set (suspensions rv w s)"
    then have "p \<in> set (allPauses rv w (s\<lparr>isProcessingRef := True\<rparr>))"
      by (simp add: suspensions_unfold split: if_splits)
    then have "isProcessingRef p"
      using allPauses_flag[of p rv w "s\<lparr>isProcessingRef := True\<rparr>"] by simp
    then show "isProcessingRef p \<and> processQueueLoop rv w p = Some p \<and> suspensions rv w p = []"
      by (simp add: processQueueLoop_unfold suspensions_unfold)
  qed
  have 4: "\<not> isProcessingRef s \<and> queueRef s = rawText # rest \<and> connected_at w (now s) \<and>
    \<not> blank (scriptedTextOf rv (voiceStyleRef s) rawText) \<longrightarrow>
      suspensions rv w s \<noteq> [] \<and>
      hd (suspensions rv w s) =
        s\<lparr>isProcessingRef := True,
          trace := trace s @ [Synthesize (now s) (scriptedTextOf rv (voiceStyleRef s) rawText)]\<rparr>"
    using allPauses_first[of "s\<lparr>isProcessingRef := True\<rparr>" rawText rest w rv]
    by (simp add: suspensions_unfold)
  have 5: "iteration rv w s = Some (Continue s1) \<longrightarrow> isProcessingRef s1 = isProcessingRef s"
    by (auto elim: iteration_Continue_summary)
  have 6: "queueWhile rv w s = Some (e, s0) \<longrightarrow>
      isProcessingRef s0 = (isProcessingRef s \<and> e \<noteq> Disconnected)"
    using queueWhile_flag[of rv w s e s0] by blast
  have 7: "\<not> isProcessingRef s \<and> processQueueLoop rv w s = Some s' \<longrightarrow> \<not> isProcessingRef s'"
    by (auto elim!: processQueueLoop_Some)
  have 8: "\<not> isProcessingRef s \<and> processQueueLoop rv w s = Some s' \<longrightarrow>
      (\<exists>e s0. queueWhile rv w (s\<lparr>isProcessingRef := True\<rparr>) = Some (e, s0))"
    by (auto elim: processQueueLoop_Some)
  from 1 2 3 4 8 5 6 7 show ?thesis by (intro conjI)
qed

theorem single_flight_witness:
  "(\<exists>s'. processQueueLoop Bridge steadyWorld (queued Natural [''A'']) = Some s' \<and>
         \<not> isProcessingRef s') \<and>
   (\<exists>s'. processQueueLoop Bridge throwingWorld (queued Natural [''A'']) = Some s' \<and>
         \<not> isProcessingRef s') \<and>
   (\<exists>s'. processQueueLoop Bridge offlineWorld (queued Natural [''A'']) = Some s' \<and>
         \<not> isProcessingRef s') \<and>
   map isProcessingRef (suspensions Bridge stuckWorld (queued Natural [''A''])) = [True, True] \<and>
   map (processQueueLoop Bridge stuckWorld)
       (suspensions Bridge stuckWorld (queued Natural [''A''])) =
     map Some (suspensions Bridge stuckWorld (queued Natural [''A'']))"
proof -
  have t: "\<And>w. \<forall>t. duration (streamer_at w t) = 0 \<Longrightarrow>
             \<exists>s'. processQueueLoop Bridge w (queued Natural [''A'']) = Some s'"
  proof -
    fix w :: world assume "\<forall>t. duration (streamer_at w t) = 0"
    then have "\<forall>t. \<exists>k. duration (streamer_at w (t + 200 * k)) < 3" by simp
    then show "\<exists>s'. processQueueLoop Bridge w (queued Natural [''A'']) = Some s'"
      by (rule processQueueLoop_total)
  qed
  note sf = single_flight[of Natural "''English''" "queued Natural [''A'']" Bridge]
  have f: "\<And>w s'. processQueueLoop Bridge w (queued Natural [''A'']) = Some s' \<Longrightarrow>
             \<not> isProcessingRef s'"
    using sf by simp
  have 1: "\<exists>s'. processQueueLoop Bridge steadyWorld (queued Natural [''A'']) = Some s' \<and>
         \<not> isProcessingRef s'"
    using t[of steadyWorld] f[of steadyWorld] by auto
  have 2: "\<exists>s'. processQueueLoop Bridge throwingWorld (queued Natural [''A'']) = Some s' \<and>
         \<not> isProcessingRef s'"
    using t[of throwingWorld] f[of throwingWorld] by auto
  have 3: "\<exists>s'. processQueueLoop Bridge offlineWorld (queued Natural [''A'']) = Some s' \<and>
         \<not> isProcessingRef s'"
    using t[of offlineWorld] f[of offlineWorld] by auto
  have "\<forall>p \<in> set (suspensions Bridge stuckWorld (queued Natural [''A''])).
          isProcessingRef p \<and> processQueueLoop Bridge stuckWorld p = Some p"
    using sf[of stuckWorld] by blast
  then have 4: "map isProcessingRef (suspensions Bridge stuckWorld (queued Natural [''A''])) =
          [True, True] \<and>
     map (processQueueLoop Bridge stuckWorld)
       (suspensions Bridge stuckWorld (queued Natural [''A''])) =
     map Some (suspensions Bridge stuckWorld (queued Natural [''A'']))"
    unfolding suspensions_stuck by simp
  from 1 2 3 4 show ?thesis by (intro conjI) simp_all
qed

section \<open>Disconnection\<close>

lemma flapping_waits:
  "pipeliningWait flappingWorld 500 = Some 2100" "pipeliningWait flappingWorld 2600 = Some 2600"
proof -
  have "duration (streamer_at flappingWorld (500 + 200 * 8)) < 3" by simp
  moreover have "\<forall>j<8. \<not> duration (streamer_at flappingWorld (500 + 200 * j)) < 3"
    by auto
  ultimately have "pipeliningWait flappingWorld 500 = Some (500 + 200 * 8)"
    by (rule pipeliningWait_Some)
  then show "pipeliningWait flappingWorld 500 = Some 2100" by simp
  have "duration (streamer_at flappingWorld (2600 + 200 * 0)) < 3" by simp
  moreover have "\<forall>j<0. \<not> duration (streamer_at flappingWorld (2600 + 200 * j)) < 3"
    by simp
  ultimately have "pipeliningWait flappingWorld 2600 = Some (2600 + 200 * 0)"
    by (rule pipeliningWait_Some)
  then show "pipeliningWait flappingWorld 2600 = Some 2600" by simp
qed

text \<open>
  C7, as the claim states it, fails: the waits do not read the connection status. Here the
  connection is down from 0.1 s to 2 s, during the synthesis call for A, the arrival wait
  and eight polls of the pipelining wait, and the loop goes on to submit B at 2.1 s.
\<close>

theorem disconnection_during_waits_counterexample:
  "tracedBy (processQueueLoop Bridge flappingWorld (queued Natural [''A'', ''B''])) =
     Some [Synthesize 0 ''A'', Synthesize 2100 ''B''] \<and>
   \<not> connected_at flappingWorld 500 \<and> \<not> connected_at flappingWorld 1900"
proof -
  let ?s0 = "(queued Natural [''A'', ''B''])\<lparr>isProcessingRef := True\<rparr>"
  let ?s1 = "?s0\<lparr>queueRef := [''B''], now := 2100, trace := [Synthesize 0 ''A'']\<rparr>"
  let ?s2 = "?s1\<lparr>queueRef := [], now := 2600,
               trace := [Synthesize 0 ''A'', Synthesize 2100 ''B'']\<rparr>"
  have 1: "iteration Bridge flappingWorld ?s0 = Some (Continue ?s1)"
    by (subst iteration_arrived[where x = "''A''" and rest = "[''B'']" and t = 2100])
       (simp_all add: scriptedTextOf_def arrived_flappingWorld[simplified] flapping_waits)
  have 2: "iteration Bridge flappingWorld ?s1 = Some (Continue ?s2)"
    by (subst iteration_arrived[where x = "''B''" and rest = "[]" and t = 2600])
       (simp_all add: scriptedTextOf_def arrived_flappingWorld[simplified] flapping_waits)
  have 3: "iteration Bridge flappingWorld ?s2 = Some (Exit Completed ?s2)"
    by (simp add: iteration_Nil)
  have "queueWhile Bridge flappingWorld ?s0 = Some (Completed, ?s2)"
    by (simp only: queueWhile_Continue[OF 1] queueWhile_Continue[OF 2] queueWhile_Exit[OF 3])
  then show ?thesis
    by (simp add: processQueueLoop_unfold tracedBy_def)
qed

text \<open>
  C7, amended: the loop reads the connection status at the top of every iteration of the
  outer loop, and nowhere else. When it reads there that the connection is down, it leaves
  at once, with the processing flag false and without a further synthesis call; and every
  synthesis call of a call of \<open>processQueueLoop\<close> is made at a moment when the status reads
  connected.
\<close>

theorem disconnection_at_iteration_top:
  "(queueRef s \<noteq> [] \<and> \<not> connected_at w (now s) \<longrightarrow>
      iteration rv w s = Some (Exit Disconnected (s\<lparr>isProcessingRef := False\<rparr>))) \<and>
   (\<not> isProcessingRef s \<and> queueRef s \<noteq> [] \<and> \<not> connected_at w (now s) \<longrightarrow>
      processQueueLoop rv w s = Some s) \<and>
   (\<not> isProcessingRef s \<and> processQueueLoop rv w s = Some s' \<longrightarrow>
      \<not> isProcessingRef s' \<and>
      (\<exists>new. trace s' = trace s @ new \<and>
         (\<forall>t x. Synthesize t x \<in> set new \<longrightarrow> connected_at w t)))"
proof -
  have 1: "queueRef s \<noteq> [] \<and> \<not> connected_at w (now s) \<longrightarrow>
      iteration rv w s = Some (Exit Disconnected (s\<lparr>isProcessingRef := False\<rparr>))"
    by (cases "queueRef s") (simp_all add: iteration_disconnected)
  have 2: "\<not> isProcessingRef s \<and> queueRef s \<noteq> [] \<and> \<not> connected_at w (now s) \<longrightarrow>
      processQueueLoop rv w s = Some s"
  proof
    assume a: "\<not> isProcessingRef s \<and> queueRef s \<noteq> [] \<and> \<not> connected_at w (now s)"
    let ?s = "s\<lparr>isProcessingRef := True\<rparr>"
    from a obtain x rest where "queueRef ?s = x # rest" by (cases "queueRef s") auto
    with a have "iteration rv w ?s = Some (Exit Disconnected (?s\<lparr>isProcessingRef := False\<rparr>))"
      by (intro iteration_disconnected) simp_all
    then have "queueWhile rv w ?s = Some (Disconnected, ?s\<lparr>isProcessingRef := False\<rparr>)"
      by (rule queueWhile_Exit)
    with a show "processQueueLoop rv w s = Some s"
      by (simp add: processQueueLoop_unfold)
  qed
  have 3: "\<not> isProcessingRef s \<and> processQueueLoop rv w s = Some s' \<longrightarrow>
      \<not> isProcessingRef s' \<and>
      (\<exists>new. trace s' = trace s @ new \<and>
         (\<forall>t x. Synthesize t x \<in> set new \<longrightarrow> connected_at w t))"
  proof
    assume a: "\<not> isProcessingRef s \<and> processQueueLoop rv w s = Some s'"
    then obtain e s0 where
      q: "queueWhile rv w (s\<lparr>isProcessingRef := True\<rparr>) = Some (e, s0)"
      and s': "s' = (if e = Thrown then s0\<lparr>trace := trace s0 @ [LogError (now s0)]\<rparr> else s0)
               \<lparr>isProcessingRef := False\<rparr>"
      by (auto elim: processQueueLoop_Some)
    obtain k new where k: "trace s0 = trace s @ new"
      "\<forall>t x. Synthesize t x \<in> set new \<longrightarrow> connected_at w t"
      by (rule queueWhile_runE[OF q, of "queueRef s" "voiceStyleRef s" "trace s"]) simp_all
    let ?new = "new @ (if e = Thrown then [LogError (now s0)] else [])"
    from s' k have "trace s' = trace s @ ?new \<and>
         (\<forall>t x. Synthesize t x \<in> set ?new \<longrightarrow> connected_at w t)" by simp
    then have "\<exists>new. trace s' = trace s @ new \<and>
         (\<forall>t x. Synthesize t x \<in> set new \<longrightarrow> connected_at w t)" by (rule exI)
    with s' show "\<not> isProcessingRef s' \<and>
      (\<exists>new. trace s' = trace s @ new \<and>
         (\<forall>t x. Synthesize t x \<in> set new \<longrightarrow> connected_at w t))" by simp
  qed
  from 1 2 3 show ?thesis by (intro conjI)
qed

theorem disconnection_at_iteration_top_witness:
  "processQueueLoop Bridge offlineWorld (queued Natural [''A'', ''B'']) =
     Some (queued Natural [''A'', ''B''])"
  using disconnection_at_iteration_top[of "queued Natural [''A'', ''B'']" offlineWorld Bridge]
  by simp


section \<open>The fallback\<close>



lemma scriptedTextOf_Bridge [simp]: "scriptedTextOf Bridge style x = x"
  by (simp add: scriptedTextOf_def)

lemma nonblank_Cons [simp]: "\<not> isWhiteSpace c \<Longrightarrow> \<not> blank (c # cs)"
  by (simp add: blank_def trim_def dropWhile_eq_Nil_conv)






section \<open>The style annotation\<close>

lemma synthesizedBy_drained:
  assumes "\<forall>t x. \<not> send_throws w t x" and "\<forall>t. connected_at w t"
    and "\<forall>t. duration (streamer_at w t) = 0"
  shows "synthesizedBy (processQueueLoop rv w (queued style q)) = Some (speakable rv style q)"
proof -
  from assms(3) have d: "\<forall>t. \<exists>k. duration (streamer_at w (t + 200 * k)) < 3" by simp
  have n: "\<not> isProcessingRef (queued style q)" by simp
  obtain s' new where "processQueueLoop rv w (queued style q) = Some s'"
    "trace s' = trace (queued style q) @ new"
    "synthesized new = speakable rv (voiceStyleRef (queued style q)) (queueRef (queued style q))"
    by (rule processQueueLoop_drains[OF n assms(1,2) d, where rv = rv])
  then show ?thesis by (simp add: synthesizedBy_def)
qed

text \<open>
  C9, as the claim states it, fails: part_001 never wraps the filler, and
  DatabaseBridge.tsx wraps nothing.
\<close>

theorem filler_not_annotated_counterexample:
  "synthesizedBy (processQueueLoop Part001 steadyWorld (queued Breathy [''A'', ''(clears throat)''])) =
     Some [''(soft inhale) A ... (pause)'', ''(clears throat)''] \<and>
   synthesizedBy (processQueueLoop Bridge steadyWorld (queued Breathy [''A''])) = Some [''A'']"
  by (simp add: synthesizedBy_drained scriptedTextOf_def isWhiteSpace_def)

text \<open>
  C9, amended: in part_001 a fragment other than the filler is handed to the synthesis
  call between the soft-inhale and pause markers when the style is breathy, between the
  slow-delivery and long-pause markers when it is dramatic, and as it is when the style
  is natural; the filler is handed over as it is whatever the style; DatabaseBridge.tsx
  hands over every fragment as it is. This holds of every fragment a call submits.
\<close>

theorem style_annotation:
  "scriptedTextOf Part001 Breathy x =
     (if x = ''(clears throat)'' then x else ''(soft inhale) '' @ x @ '' ... (pause)'') \<and>
   scriptedTextOf Part001 Dramatic x =
     (if x = ''(clears throat)'' then x else ''(slowly) '' @ x @ '' ... (long pause)'') \<and>
   scriptedTextOf Part001 Natural x = x \<and>
   scriptedTextOf Bridge style x = x \<and>
   (\<not> isProcessingRef s \<and> (\<forall>t x. \<not> send_throws w t x) \<and>
    processQueueLoop rv w s = Some s' \<longrightarrow>
      (\<exists>k\<le>length (queueRef s).
         ((\<forall>t. connected_at w t) \<longrightarrow> k = length (queueRef s)) \<and>
         synthesized (trace s') =
           synthesized (trace s) @
           filter (\<lambda>x. \<not> blank x)
             (map (scriptedTextOf rv (voiceStyleRef s)) (take k (queueRef s)))))"
proof -
  have 1: "scriptedTextOf Part001 Breathy x =
     (if x = ''(clears throat)'' then x else ''(soft inhale) '' @ x @ '' ... (pause)'')"
    and 2: "scriptedTextOf Part001 Dramatic x =
     (if x = ''(clears throat)'' then x else ''(slowly) '' @ x @ '' ... (long pause)'')"
    and 3: "scriptedTextOf Part001 Natural x = x"
    and 4: "scriptedTextOf Bridge style x = x"
    by (simp_all add: scriptedTextOf_def)
  have 5: "\<not> isProcessingRef s \<and> (\<forall>t x. \<not> send_throws w t x) \<and>
    processQueueLoop rv w s = Some s' \<longrightarrow>
      (\<exists>k\<le>length (queueRef s).
         ((\<forall>t. connected_at w t) \<longrightarrow> k = length (queueRef s)) \<and>
         synthesized (trace s') =
           synthesized (trace s) @
           filter (\<lambda>x. \<not> blank x)
             (map (scriptedTextOf rv (voiceStyleRef s)) (take k (queueRef s))))"
  proof
    assume a: "\<not> isProcessingRef s \<and> (\<forall>t x. \<not> send_throws w t x) \<and>
      processQueueLoop rv w s = Some s'"
    then have a1: "\<not> isProcessingRef s" and a2: "\<forall>t x. \<not> send_throws w t x"
      and a3: "processQueueLoop rv w s = Some s'" by simp_all
    obtain k new where k: "k \<le> length (queueRef s)" "queueRef s' = drop k (queueRef s)"
      "trace s' = trace s @ new"
      "synthesized new = speakable rv (voiceStyleRef s) (take k (queueRef s))"
      "\<forall>t x. Synthesize t x \<in> set new \<longrightarrow> connected_at w t"
      "(\<forall>t x. synth_ok w t x = True) \<longrightarrow>
           sent new = map (fallbackText rv) (filter (\<lambda>x. \<not> True) (synthesized new))"
      "(\<forall>t. connected_at w t) \<longrightarrow> k = length (queueRef s)"
      by (rule processQueueLoop_run[OF a1 a2 a3, where ok = "\<lambda>x. True"])
    then have "k \<le> length (queueRef s) \<and>
         ((\<forall>t. connected_at w t) \<longrightarrow> k = length (queueRef s)) \<and>
         synthesized (trace s') =
           synthesized (trace s) @
           filter (\<lambda>x. \<not> blank x)
             (map (scriptedTextOf rv (voiceStyleRef s)) (take k (queueRef s)))"
      by simp
    then show "\<exists>k\<le>length (queueRef s).
         ((\<forall>t. connected_at w t) \<longrightarrow> k = length (queueRef s)) \<and>
         synthesized (trace s') =
           synthesized (trace s) @
           filter (\<lambda>x. \<not> blank x)
             (map (scriptedTextOf rv (voiceStyleRef s)) (take k (queueRef s)))"
      by (rule exI)
  qed
  from 1 2 3 4 5 show ?thesis by (intro conjI)
qed

theorem style_annotation_witness:
  "synthesizedBy (processQueueLoop Part001 steadyWorld (queued Dramatic [''A'', ''B''])) =
     Some [''(slowly) A ... (long pause)'', ''(slowly) B ... (long pause)'']"
proof -
  have "\<forall>t. \<exists>k. duration (streamer_at steadyWorld (t + 200 * k)) < 3" by simp
  then obtain s' where s': "processQueueLoop Part001 steadyWorld (queued Dramatic [''A'', ''B'']) = Some s'"
    using processQueueLoop_total by blast
  from style_annotation[of "''A''" Natural "queued Dramatic [''A'', ''B'']" steadyWorld Part001 s',
      THEN conjunct2, THEN conjunct2, THEN conjunct2, THEN conjunct2] s'
  have "synthesized (trace s') = [''(slowly) A ... (long pause)'', ''(slowly) B ... (long pause)'']"
    by (auto simp: scriptedTextOf_def isWhiteSpace_def)
  with s' show ?thesis by (simp add: synthesizedBy_def)
qed


end
